theory Spec2Isabelle
  imports Main "HOL-Library.Word" "HOL-Library.Char_ord" "HOL-Library.List_Lexorder"
begin

section \<open>Data model\<close>

text \<open>
  The program is \<^verbatim>\<open>DSA/Dijkstra's Shortest Path Algorithm.cpp\<close>.  Node names are
  \<^verbatim>\<open>std::string\<close>, compared bytewise and lexicographically; weights and distances are
  the C++ type \<^verbatim>\<open>int\<close>, taken as 32-bit two's complement.  Signed overflow is
  undefined behaviour in C++; the model takes the wrap-around that the usual targets
  produce, so \<open>+\<close> is addition of 32-bit words and comparisons read the words as signed.

  A \<^verbatim>\<open>std::map\<close> that the program iterates over (the graph and its inner neighbour
  maps) is an association list in iteration order, that is, with strictly ascending keys
  (\<open>wf_graph\<close> below).  The distance and predecessor maps are only ever looked up and
  updated at single keys, so they are partial functions.
\<close>

type_synonym node = string
type_synonym int32 = "32 word"
type_synonym graph = "(node \<times> (node \<times> int32) list) list"
type_synonym pstate = "int32 \<times> node"
type_synonym distances = "node \<rightharpoonup> int32"
type_synonym predecessors = "node \<rightharpoonup> node"

definition INT_MAX :: int32 where
  "INT_MAX = 0x7FFFFFFF"

definition strictly_ascending :: "(node \<times> 'b) list \<Rightarrow> bool" where
  "strictly_ascending kvs = sorted_wrt (<) (map fst kvs)"

definition wf_graph :: "graph \<Rightarrow> bool" where
  "wf_graph graph =
     (strictly_ascending graph \<and> list_all (\<lambda>entry. strictly_ascending (snd entry)) graph)"

text \<open>
  \<^verbatim>\<open>m[k]\<close> on a \<^verbatim>\<open>std::map<string, int>\<close> used as a value: a missing key is first
  inserted with the value-initialised \<^verbatim>\<open>int\<close>, which is 0.  The function returns the
  value read and the map after the possible insertion.
\<close>

definition subscript :: "distances \<Rightarrow> node \<Rightarrow> int32 \<times> distances" where
  "subscript m k = (case m k of None \<Rightarrow> (0, m(k \<mapsto> 0)) | Some v \<Rightarrow> (v, m))"

subsection \<open>The priority queue\<close>

text \<open>
  \<^verbatim>\<open>priority_queue<State, vector<State>, greater<State>>\<close> hands out a least element
  under \<^verbatim>\<open>operator<\<close> of \<^verbatim>\<open>pair<int, string>\<close>.  Two entries that are not ordered
  either way are equal pairs, so the sequence of extracted values is determined by the
  multiset of entries; the model keeps the entries in a list and searches for the least.
  \<^verbatim>\<open>top\<close> of an empty queue is undefined in C++ and is never evaluated by the program.
\<close>

definition state_less :: "pstate \<Rightarrow> pstate \<Rightarrow> bool" where
  "state_less a b = (fst a <s fst b \<or> (\<not> fst b <s fst a \<and> snd a < snd b))"

fun pq_top :: "pstate list \<Rightarrow> pstate" where
  "pq_top (x # xs) = foldl (\<lambda>least y. if state_less y least then y else least) x xs"

definition pq_push :: "pstate \<Rightarrow> pstate list \<Rightarrow> pstate list" where
  "pq_push x q = x # q"

definition pq_pop :: "pstate list \<Rightarrow> pstate list" where
  "pq_pop q = remove1 (pq_top q) q"

section \<open>dijkstra_shortest_path\<close>

record dstate =
  distances :: distances
  predecessors :: predecessors
  pq :: "pstate list"

text \<open>The body of the loop over the neighbours of \<open>current_node\<close> (source lines 67 to 83).\<close>

definition relax :: "int32 \<Rightarrow> node \<Rightarrow> dstate \<Rightarrow> node \<times> int32 \<Rightarrow> dstate" where
  "relax current_distance current_node st neighbor_pair =
     (let neighbor = fst neighbor_pair;
          weight = snd neighbor_pair;
          new_distance = current_distance + weight;
          (old_distance, ds) = subscript (distances st) neighbor
      in if new_distance <s old_distance
         then st\<lparr>distances := ds(neighbor \<mapsto> new_distance),
                 predecessors := (predecessors st)(neighbor \<mapsto> current_node),
                 pq := pq_push (new_distance, neighbor) (pq st)\<rparr>
         else st\<lparr>distances := ds\<rparr>)"

text \<open>One pass through the body of the main loop (source lines 55 to 84), queue not empty.\<close>

definition step :: "graph \<Rightarrow> dstate \<Rightarrow> dstate" where
  "step graph st =
     (let current_distance = fst (pq_top (pq st));
          current_node = snd (pq_top (pq st));
          st1 = st\<lparr>pq := pq_pop (pq st)\<rparr>;
          (recorded, ds) = subscript (distances st1) current_node;
          st2 = st1\<lparr>distances := ds\<rparr>
      in if recorded <s current_distance then st2
         else (case map_of graph current_node of
                 None \<Rightarrow> st2
               | Some neighbors \<Rightarrow> foldl (relax current_distance current_node) st2 neighbors))"

text \<open>
  The measure of the main loop: the number of queue entries plus, over the nodes that
  occur as neighbours, the distance recorded for the node counted from the least
  \<^verbatim>\<open>int\<close>, a node without an entry counting more than any entry.
\<close>

definition neighbor_nodes :: "graph \<Rightarrow> node set" where
  "neighbor_nodes graph = (\<Union>entry \<in> set graph. fst ` set (snd entry))"

definition level :: "distances \<Rightarrow> node \<Rightarrow> nat" where
  "level m n = (case m n of None \<Rightarrow> 2 ^ 32 | Some v \<Rightarrow> nat (sint v + 2 ^ 31))"

definition loop_measure :: "graph \<Rightarrow> dstate \<Rightarrow> nat" where
  "loop_measure graph st = length (pq st) + (\<Sum>n \<in> neighbor_nodes graph. level (distances st) n)"

subsection \<open>Termination of the main loop\<close>

lemma pq_top_fold_mem:
  "foldl (\<lambda>least y. if state_less y least then y else least) x xs \<in> set (x # xs)"
  by (induction xs arbitrary: x) auto

lemma pq_top_mem: "q \<noteq> [] \<Longrightarrow> pq_top q \<in> set q"
  using pq_top_fold_mem by (cases q) auto

lemma length_pq_pop: "q \<noteq> [] \<Longrightarrow> Suc (length (pq_pop q)) = length q"
  by (simp add: pq_pop_def pq_top_mem length_remove1 Suc_pred' length_greater_0_conv del: pq_top.simps)

lemma level_less: "level m n \<le> 2 ^ 32"
proof (cases "m n")
  case None then show ?thesis by (simp add: level_def)
next
  case (Some v)
  have "sint v < 2 ^ 31" using sint_lt [of v] by simp
  then show ?thesis using Some by (simp add: level_def)
qed

lemma level_subscript: "level (snd (subscript m k)) n \<le> level m n"
  using level_less [of "m(k \<mapsto> 0)" n]
  by (auto simp: subscript_def level_def split: option.splits)

lemma level_update:
  assumes "m n = Some old" "new <s old"
  shows "level (m(n \<mapsto> new)) n < level m n"
proof -
  have "- (2 ^ 31) \<le> sint new" using sint_ge [of new] by simp
  moreover have "sint new < sint old" using assms(2) by (simp add: word_sless_alt)
  ultimately show ?thesis using assms(1) by (simp add: level_def)
qed

lemma sum_level_subscript:
  "finite A \<Longrightarrow> (\<Sum>n\<in>A. level (snd (subscript m k)) n) \<le> (\<Sum>n\<in>A. level m n)"
  by (rule sum_mono) (rule level_subscript)

lemma sum_level_update:
  assumes "finite A" "k \<in> A" "m k = Some old" "new <s old"
  shows "(\<Sum>n\<in>A. level (m(k \<mapsto> new)) n) < (\<Sum>n\<in>A. level m n)"
proof (rule sum_strict_mono_ex1 [OF assms(1)])
  show "\<forall>n\<in>A. level (m(k \<mapsto> new)) n \<le> level m n"
    using level_update [of m k old new] assms(3,4) by (auto simp: level_def less_imp_le)
  show "\<exists>n\<in>A. level (m(k \<mapsto> new)) n < level m n"
    using level_update [of m k old new] assms by blast
qed

lemma finite_neighbor_nodes: "finite (neighbor_nodes graph)"
  by (simp add: neighbor_nodes_def)

lemma subscript_Some: "\<exists>v. snd (subscript m k) k = Some v \<and> fst (subscript m k) = v"
  by (auto simp: subscript_def split: option.splits)

lemma relax_measure:
  assumes "fst nb \<in> neighbor_nodes graph"
  shows "loop_measure graph (relax cd cn st nb) \<le> loop_measure graph st"
proof -
  obtain old where old: "snd (subscript (distances st) (fst nb)) (fst nb) = Some old"
    "fst (subscript (distances st) (fst nb)) = old"
    using subscript_Some by blast
  show ?thesis
  proof (cases "cd + snd nb <s old")
    case True
    have "(\<Sum>n\<in>neighbor_nodes graph. level ((snd (subscript (distances st) (fst nb)))(fst nb \<mapsto> cd + snd nb)) n)
          < (\<Sum>n\<in>neighbor_nodes graph. level (snd (subscript (distances st) (fst nb))) n)"
      using sum_level_update [of "neighbor_nodes graph" "fst nb" _ old "cd + snd nb"]
        finite_neighbor_nodes assms old(1) True by blast
    also have "\<dots> \<le> (\<Sum>n\<in>neighbor_nodes graph. level (distances st) n)"
      by (rule sum_level_subscript [OF finite_neighbor_nodes])
    finally show ?thesis using True old(2)
      by (simp add: loop_measure_def relax_def pq_push_def split_beta Let_def)
  next
    case False
    then show ?thesis using old(2) sum_level_subscript [of "neighbor_nodes graph" "distances st" "fst nb"] finite_neighbor_nodes
      by (simp add: loop_measure_def relax_def split_beta Let_def)
  qed
qed

lemma foldl_relax_measure:
  "fst ` set nbs \<subseteq> neighbor_nodes graph \<Longrightarrow>
   loop_measure graph (foldl (relax cd cn) st nbs) \<le> loop_measure graph st"
proof (induction nbs arbitrary: st)
  case Nil then show ?case by simp
next
  case (Cons nb nbs)
  have "loop_measure graph (foldl (relax cd cn) (relax cd cn st nb) nbs)
        \<le> loop_measure graph (relax cd cn st nb)"
    using Cons by simp
  also have "\<dots> \<le> loop_measure graph st"
    using Cons.prems by (intro relax_measure) simp
  finally show ?case by simp
qed

lemma map_of_neighbor_nodes:
  "map_of graph u = Some nbs \<Longrightarrow> fst ` set nbs \<subseteq> neighbor_nodes graph"
  by (force simp: neighbor_nodes_def dest!: map_of_SomeD)

lemma step_measure:
  assumes "pq st \<noteq> []"
  shows "loop_measure graph (step graph st) < loop_measure graph st"
proof -
  let ?st2 = "st\<lparr>pq := pq_pop (pq st), distances := snd (subscript (distances st) (snd (pq_top (pq st))))\<rparr>"
  have popped: "loop_measure graph ?st2 < loop_measure graph st"
    using length_pq_pop [OF assms]
      sum_level_subscript [of "neighbor_nodes graph" "distances st" "snd (pq_top (pq st))"]
      finite_neighbor_nodes [of graph]
    by (simp add: loop_measure_def)
  have "loop_measure graph (step graph st) \<le> loop_measure graph ?st2"
    using foldl_relax_measure [OF map_of_neighbor_nodes]
    by (auto simp: step_def Let_def split_beta split: option.splits)
  then show ?thesis using popped by simp
qed

text \<open>The main loop (source lines 52 to 85).  It terminates on every input, also when sums wrap.\<close>

function dijkstra_loop :: "graph \<Rightarrow> dstate \<Rightarrow> dstate" where
  "dijkstra_loop graph st = (if pq st = [] then st else dijkstra_loop graph (step graph st))"
  by pat_completeness auto
termination
  by (relation "measure (\<lambda>(graph, st). loop_measure graph st)") (simp_all add: step_measure)

declare dijkstra_loop.simps [simp del]

definition init_distances :: "graph \<Rightarrow> distances" where
  "init_distances graph = foldl (\<lambda>m entry. m(fst entry \<mapsto> INT_MAX)) Map.empty graph"

definition dijkstra_shortest_path :: "graph \<Rightarrow> node \<Rightarrow> distances \<times> predecessors" where
  "dijkstra_shortest_path graph start_node =
     (let st = dijkstra_loop graph
                 \<lparr>distances = (init_distances graph)(start_node \<mapsto> 0),
                  predecessors = Map.empty,
                  pq = pq_push (0, start_node) []\<rparr>
      in (distances st, predecessors st))"

section \<open>reconstruct_path\<close>

text \<open>
  \<^verbatim>\<open>predecessors.at(k)\<close> throws \<^verbatim>\<open>std::out_of_range\<close> when the key is missing; the
  exception is a value of the model.  The backward walk has no bound on its number of
  rounds: on a predecessor map with a cycle that avoids the start node it runs forever,
  which the model renders as \<open>None\<close>.
\<close>

datatype error = Out_of_range

definition map_at :: "predecessors \<Rightarrow> node \<Rightarrow> error + node" where
  "map_at m k = (case m k of None \<Rightarrow> Inl Out_of_range | Some v \<Rightarrow> Inr v)"

partial_function (option) walk_back ::
  "predecessors \<Rightarrow> node \<Rightarrow> node \<Rightarrow> node list \<Rightarrow> (error + node list) option" where
  "walk_back preds start_node current_node path =
     (if current_node \<noteq> start_node
      then (if preds current_node = None then Some (Inr [])
            else (case map_at preds current_node of
                    Inl e \<Rightarrow> Some (Inl e)
                  | Inr previous \<Rightarrow> walk_back preds start_node previous (path @ [current_node])))
      else Some (Inr (rev (path @ [start_node]))))"

declare walk_back.simps [code]

definition reconstruct_path ::
  "predecessors \<Rightarrow> node \<Rightarrow> node \<Rightarrow> (error + node list) option" where
  "reconstruct_path preds start_node target_node = walk_back preds start_node target_node []"

section \<open>The sample run of main\<close>

definition sample_graph :: graph where
  "sample_graph =
     [(''A'', [(''B'', 7), (''C'', 9), (''F'', 14)]),
      (''B'', [(''C'', 10), (''D'', 15)]),
      (''C'', [(''D'', 11), (''F'', 2)]),
      (''D'', [(''E'', 6)]),
      (''E'', [(''F'', 8)]),
      (''F'', [(''E'', 9)])]"

definition START :: node where "START = ''A''"
definition TARGET :: node where "TARGET = ''D''"

section \<open>Paths of a graph\<close>

text \<open>
  The notions the claims are stated in: the edge from \<open>u\<close> to \<open>v\<close> with its weight, a
  path as a non-empty list of nodes whose consecutive pairs are edges, its weight as the
  sum of the weights read as unbounded integers, and reachability.
\<close>

definition edge :: "graph \<Rightarrow> node \<Rightarrow> node \<Rightarrow> int32 option" where
  "edge graph u v = (case map_of graph u of None \<Rightarrow> None | Some neighbors \<Rightarrow> map_of neighbors v)"

fun is_path :: "graph \<Rightarrow> node list \<Rightarrow> bool" where
  "is_path graph [] = False"
| "is_path graph [u] = True"
| "is_path graph (u # v # rest) = (edge graph u v \<noteq> None \<and> is_path graph (v # rest))"

fun path_weight :: "graph \<Rightarrow> node list \<Rightarrow> int" where
  "path_weight graph (u # v # rest) =
     (case edge graph u v of None \<Rightarrow> 0 | Some w \<Rightarrow> sint w) + path_weight graph (v # rest)"
| "path_weight graph [u] = 0"
| "path_weight graph [] = 0"

definition path_from_to :: "graph \<Rightarrow> node \<Rightarrow> node \<Rightarrow> node list \<Rightarrow> bool" where
  "path_from_to graph s t p = (is_path graph p \<and> hd p = s \<and> last p = t)"

definition reachable :: "graph \<Rightarrow> node \<Rightarrow> node \<Rightarrow> bool" where
  "reachable graph s t = (\<exists>p. path_from_to graph s t p)"

definition is_shortest_distance :: "graph \<Rightarrow> node \<Rightarrow> node \<Rightarrow> int \<Rightarrow> bool" where
  "is_shortest_distance graph s t c \<longleftrightarrow>
     (\<exists>p. path_from_to graph s t p \<and> path_weight graph p = c) \<and>
     (\<forall>p. path_from_to graph s t p \<longrightarrow> c \<le> path_weight graph p)"

definition nonneg_weights :: "graph \<Rightarrow> bool" where
  "nonneg_weights graph = list_all (\<lambda>entry. list_all (\<lambda>nb. 0 \<le>s snd nb) (snd entry)) graph"

definition total_weight :: "graph \<Rightarrow> int" where
  "total_weight graph = (\<Sum>entry\<leftarrow>graph. \<Sum>nb\<leftarrow>snd entry. sint (snd nb))"

text \<open>
  The backward chain from a node runs into a node that is not the start node and has no
  predecessor entry, without passing the start node before.
\<close>

inductive dead_end :: "predecessors \<Rightarrow> node \<Rightarrow> node \<Rightarrow> bool" for preds start_node where
  here: "n \<noteq> start_node \<Longrightarrow> preds n = None \<Longrightarrow> dead_end preds start_node n"
| further: "n \<noteq> start_node \<Longrightarrow> preds n = Some u \<Longrightarrow> dead_end preds start_node u
         \<Longrightarrow> dead_end preds start_node n"

section \<open>Notions of the proofs\<close>

text \<open>
  The state the main loop starts from, and the first invariant: whatever the loop has
  touched is reachable from the start node.
\<close>

definition init_state :: "graph \<Rightarrow> node \<Rightarrow> dstate" where
  "init_state graph s = \<lparr>distances = (init_distances graph)(s \<mapsto> 0), predecessors = Map.empty,
     pq = pq_push (0, s) []\<rparr>"

definition sound :: "graph \<Rightarrow> node \<Rightarrow> dstate \<Rightarrow> bool" where
  "sound graph s st =
     ((\<forall>n v. distances st n = Some v \<longrightarrow> v \<noteq> INT_MAX \<longrightarrow> reachable graph s n) \<and>
      (\<forall>n. distances st n = Some INT_MAX \<longrightarrow> n \<in> fst ` set graph) \<and>
      (\<forall>n \<in> fst ` set graph. distances st n \<noteq> None) \<and>
      (\<forall>n u. predecessors st n = Some u \<longrightarrow> reachable graph s n) \<and>
      (\<forall>e \<in> set (pq st). reachable graph s (snd e)))"

text \<open>
  The tracked nodes are the keys of the graph and the start node: the nodes whose distance
  the program initialises.  \<open>rwalk\<close> is a path from the start node, kept in reverse with
  its weight; \<open>gpath\<close> is such a path without a repeated node, each of whose nodes has a
  recorded distance that is at most the weight of the path up to it.
\<close>

definition tracked :: "graph \<Rightarrow> node \<Rightarrow> node set" where
  "tracked graph s = insert s (fst ` set graph)"

definition out_weight :: "graph \<Rightarrow> node \<Rightarrow> int" where
  "out_weight graph u = (case map_of graph u of None \<Rightarrow> 0 | Some nbs \<Rightarrow> \<Sum>nb\<leftarrow>nbs. sint (snd nb))"

inductive rwalk :: "graph \<Rightarrow> node \<Rightarrow> node list \<Rightarrow> int \<Rightarrow> bool" for graph s where
  rwalk_start: "rwalk graph s [s] 0"
| rwalk_edge: "rwalk graph s (u # xs) c \<Longrightarrow> edge graph u v = Some w
    \<Longrightarrow> rwalk graph s (v # u # xs) (c + sint w)"

inductive gpath :: "graph \<Rightarrow> node \<Rightarrow> distances \<Rightarrow> node list \<Rightarrow> int \<Rightarrow> bool" for graph s d where
  gpath_start: "gpath graph s d [s] 0"
| gpath_edge: "gpath graph s d (u # xs) c \<Longrightarrow> edge graph u v = Some w \<Longrightarrow> v \<notin> set (u # xs)
    \<Longrightarrow> d v = Some dv \<Longrightarrow> sint dv \<le> c + sint w \<Longrightarrow> gpath graph s d (v # u # xs) (c + sint w)"

text \<open>
  \<open>chain\<close>: following the predecessor map from a node ends at a node without an entry.
  \<open>back_list\<close>: the nodes met from a node back to the start node.
\<close>

inductive chain :: "predecessors \<Rightarrow> node \<Rightarrow> bool" for preds where
  chain_root: "preds n = None \<Longrightarrow> chain preds n"
| chain_link: "preds n = Some u \<Longrightarrow> chain preds u \<Longrightarrow> chain preds n"

inductive back_list :: "predecessors \<Rightarrow> node \<Rightarrow> node \<Rightarrow> node list \<Rightarrow> bool" for preds s where
  back_start: "back_list preds s s [s]"
| back_step: "n \<noteq> s \<Longrightarrow> preds n = Some u \<Longrightarrow> back_list preds s u xs
    \<Longrightarrow> back_list preds s n (n # xs)"

text \<open>
  The invariant of the main loop, for graphs with non-negative weights whose sum is below
  \<^verbatim>\<open>INT_MAX\<close>.  \<open>pend\<close> holds the edges of the node being processed that the inner
  loop has not reached yet.
\<close>

definition admissible :: "graph \<Rightarrow> bool" where
  "admissible graph \<longleftrightarrow>
     wf_graph graph \<and> nonneg_weights graph \<and> total_weight graph < sint INT_MAX"

definition inv_dist :: "graph \<Rightarrow> node \<Rightarrow> distances \<Rightarrow> bool" where
  "inv_dist graph s d \<longleftrightarrow>
     d s = Some 0 \<and>
     (\<forall>n v. d n = Some v \<longrightarrow> 0 \<le> sint v) \<and>
     (\<forall>n \<in> fst ` set graph. d n \<noteq> None) \<and>
     (\<forall>n. n \<notin> tracked graph s \<longrightarrow> d n = None \<or> d n = Some 0)"

definition inv_queue :: "graph \<Rightarrow> node \<Rightarrow> distances \<Rightarrow> pstate list \<Rightarrow> bool" where
  "inv_queue graph s d q \<longleftrightarrow>
     (\<forall>e \<in> set q. snd e \<in> tracked graph s \<and> fst e \<noteq> INT_MAX \<and>
        (\<exists>v. d (snd e) = Some v \<and> sint v \<le> sint (fst e)))"

definition inv_path :: "graph \<Rightarrow> node \<Rightarrow> distances \<Rightarrow> bool" where
  "inv_path graph s d \<longleftrightarrow>
     (\<forall>n \<in> tracked graph s. \<forall>v. d n = Some v \<longrightarrow> v \<noteq> INT_MAX \<longrightarrow>
        (\<exists>xs. gpath graph s d (n # xs) (sint v)))"

definition inv_relaxed ::
  "graph \<Rightarrow> node \<Rightarrow> (node \<times> node) set \<Rightarrow> distances \<Rightarrow> pstate list \<Rightarrow> bool" where
  "inv_relaxed graph s pend d q \<longleftrightarrow>
     (\<forall>n \<in> tracked graph s. \<forall>v. d n = Some v \<longrightarrow> v \<noteq> INT_MAX \<longrightarrow>
        (v, n) \<in> set q \<or>
        (\<forall>m w. edge graph n m = Some w \<longrightarrow>
           (n, m) \<in> pend \<or> (\<exists>dm. d m = Some dm \<and> sint dm \<le> sint v + sint w)))"

definition inv_pred :: "graph \<Rightarrow> node \<Rightarrow> distances \<Rightarrow> predecessors \<Rightarrow> bool" where
  "inv_pred graph s d pr \<longleftrightarrow>
     pr s = None \<and>
     (\<forall>n u. pr n = Some u \<longrightarrow>
        (\<exists>w du dn. edge graph u n = Some w \<and> d u = Some du \<and> du \<noteq> INT_MAX \<and>
           d n = Some dn \<and> dn \<noteq> INT_MAX \<and> sint du + sint w \<le> sint dn)) \<and>
     (\<forall>n \<in> tracked graph s. n \<noteq> s \<longrightarrow>
        (\<forall>v. d n = Some v \<longrightarrow> v \<noteq> INT_MAX \<longrightarrow> pr n \<noteq> None)) \<and>
     (\<forall>n. chain pr n)"

definition inv ::
  "graph \<Rightarrow> node \<Rightarrow> (node \<times> node) set \<Rightarrow> distances \<Rightarrow> predecessors \<Rightarrow> pstate list \<Rightarrow> bool" where
  "inv graph s pend d pr q \<longleftrightarrow>
     inv_dist graph s d \<and> inv_queue graph s d q \<and> inv_path graph s d \<and>
     inv_relaxed graph s pend d q \<and> inv_pred graph s d pr"

definition inv_state :: "graph \<Rightarrow> node \<Rightarrow> (node \<times> node) set \<Rightarrow> dstate \<Rightarrow> bool" where
  "inv_state graph s pend st = inv graph s pend (distances st) (predecessors st) (pq st)"

definition rank :: "distances \<Rightarrow> node \<Rightarrow> int" where
  "rank d n = (case d n of None \<Rightarrow> 0 | Some v \<Rightarrow> sint v)"

section \<open>Graphs of the concrete runs\<close>

definition two_component_graph :: graph where
  "two_component_graph = [(''A'', [(''B'', 1)]), (''C'', [(''D'', 1)])]"

definition neighbor_only_graph :: graph where
  "neighbor_only_graph = [(''A'', [(''B'', 5)])]"

definition wrapping_graph :: graph where
  "wrapping_graph = [(''A'', [(''B'', 0x7FFFFFFE)]), (''B'', [(''A'', 2)])]"

definition wrapping_chain_graph :: graph where
  "wrapping_chain_graph = [(''A'', [(''B'', 0x7FFFFFFE)]), (''B'', [(''C'', 2)]), (''C'', [])]"

section \<open>Properties of reconstruct_path\<close>

lemma walk_back_dead_end:
  "dead_end preds start_node n \<Longrightarrow> walk_back preds start_node n path = Some (Inr [])"
proof (induction arbitrary: path rule: dead_end.induct)
  case (here n)
  then show ?case by (subst walk_back.simps) simp
next
  case (further n u)
  show ?case
    by (subst walk_back.simps) (simp add: further.hyps(1,2) further.IH map_at_def)
qed

text \<open>
  Claim C5.  When the backward chain from the target reaches a node other than the start
  node that has no predecessor entry, \<open>reconstruct_path\<close> returns: it returns the empty
  sequence and not the exception of \<^verbatim>\<open>at\<close>.  The predecessor map is a \<^verbatim>\<open>const\<close>
  reference read through \<^verbatim>\<open>find\<close> and \<^verbatim>\<open>at\<close> only, an argument of the model that is not
  returned.
\<close>

theorem reconstruct_path_dead_end:
  "dead_end preds start_node target_node \<Longrightarrow>
   reconstruct_path preds start_node target_node = Some (Inr [])"
  unfolding reconstruct_path_def by (rule walk_back_dead_end)

theorem reconstruct_path_dead_end_witness:
  "dead_end [''C'' \<mapsto> ''B''] ''A'' ''C'' \<and> reconstruct_path [''C'' \<mapsto> ''B''] ''A'' ''C'' = Some (Inr [])"
proof -
  have "dead_end [''C'' \<mapsto> ''B''] ''A'' ''B''" by (rule dead_end.here) simp_all
  then have h: "dead_end [''C'' \<mapsto> ''B''] ''A'' ''C''" by (rule dead_end.further [rotated 2]) simp_all
  show ?thesis using h reconstruct_path_dead_end [OF h] by simp
qed

text \<open>
  Claim C6.  With the target equal to the start node, \<open>reconstruct_path\<close> returns the
  one-element sequence of the start node, whatever the predecessor map holds.
\<close>

theorem reconstruct_path_target_is_start:
  "reconstruct_path preds start_node start_node = Some (Inr [start_node])"
  unfolding reconstruct_path_def by (subst walk_back.simps) simp

section \<open>The sample graph\<close>

text \<open>
  Claim C9.  On the sample graph of \<^verbatim>\<open>main\<close> with start node A the distances are
  A=0, B=7, C=9, D=20, E=20, F=11, and the path reconstructed from A to D is A, C, D,
  of weight 20.
\<close>

theorem sample_run:
  "fst (dijkstra_shortest_path sample_graph START) ''A'' = Some 0 \<and>
   fst (dijkstra_shortest_path sample_graph START) ''B'' = Some 7 \<and>
   fst (dijkstra_shortest_path sample_graph START) ''C'' = Some 9 \<and>
   fst (dijkstra_shortest_path sample_graph START) ''D'' = Some 20 \<and>
   fst (dijkstra_shortest_path sample_graph START) ''E'' = Some 20 \<and>
   fst (dijkstra_shortest_path sample_graph START) ''F'' = Some 11 \<and>
   reconstruct_path (snd (dijkstra_shortest_path sample_graph START)) START TARGET
     = Some (Inr [''A'', ''C'', ''D'']) \<and>
   path_weight sample_graph [''A'', ''C'', ''D''] = 20"
  by code_simp

section \<open>Unreachable nodes\<close>

subsection \<open>Paths\<close>

lemma is_path_nonempty: "is_path graph p \<Longrightarrow> p \<noteq> []"
  by (cases p) auto

lemma is_path_snoc:
  "is_path graph p \<Longrightarrow> edge graph (last p) v \<noteq> None \<Longrightarrow> is_path graph (p @ [v])"
  by (induction graph p rule: is_path.induct) auto

lemma is_path_snocD:
  "is_path graph (p @ [v]) \<Longrightarrow> p \<noteq> [] \<Longrightarrow> is_path graph p \<and> edge graph (last p) v \<noteq> None"
  by (induction graph p rule: is_path.induct) auto

lemma path_weight_snoc:
  "p \<noteq> [] \<Longrightarrow> path_weight graph (p @ [v]) =
     path_weight graph p + (case edge graph (last p) v of None \<Rightarrow> 0 | Some w \<Rightarrow> sint w)"
  by (induction graph p rule: path_weight.induct) auto

lemma reachable_refl: "reachable graph s s"
  unfolding reachable_def path_from_to_def by (rule exI [of _ "[s]"]) simp

lemma reachable_edge:
  assumes "reachable graph s u" "edge graph u v \<noteq> None"
  shows "reachable graph s v"
proof -
  obtain p where p: "is_path graph p" "hd p = s" "last p = u"
    using assms(1) by (auto simp: reachable_def path_from_to_def)
  have "is_path graph (p @ [v])" using p assms(2) by (simp add: is_path_snoc)
  moreover have "hd (p @ [v]) = s" using p is_path_nonempty [OF p(1)] by simp
  ultimately show ?thesis unfolding reachable_def path_from_to_def
    by (intro exI [of _ "p @ [v]"]) simp
qed

lemma edge_of_neighbor:
  "map_of graph u = Some neighbors \<Longrightarrow> (v, w) \<in> set neighbors \<Longrightarrow> edge graph u v \<noteq> None"
  by (simp add: edge_def weak_map_of_SomeI map_of_eq_None_iff image_iff) force

subsection \<open>What the loop touches is reachable\<close>

lemma relax_alt:
  "relax cd cn st (m, w) =
     (if cd + w <s fst (subscript (distances st) m)
      then st\<lparr>distances := (distances st)(m \<mapsto> cd + w),
              predecessors := (predecessors st)(m \<mapsto> cn),
              pq := (cd + w, m) # pq st\<rparr>
      else st\<lparr>distances := snd (subscript (distances st) m)\<rparr>)"
  by (auto simp: relax_def Let_def split_beta pq_push_def subscript_def split: option.splits)

lemma sless_not_INT_MAX: "a <s b \<Longrightarrow> a \<noteq> INT_MAX"
proof
  assume "a <s b" "a = INT_MAX"
  then have "sint INT_MAX < sint b" by (simp add: word_sless_alt)
  moreover have "sint b < 2 ^ 31" using sint_lt [of b] by simp
  ultimately show False by (simp add: INT_MAX_def)
qed

lemma sound_relax:
  assumes "sound graph s st" "reachable graph s m"
  shows "sound graph s (relax cd cn st (m, w))"
proof (cases "cd + w <s fst (subscript (distances st) m)")
  case True
  then have "cd + w \<noteq> INT_MAX" by (rule sless_not_INT_MAX)
  then show ?thesis using assms True unfolding relax_alt sound_def by auto
next
  case False
  have "INT_MAX \<noteq> (0 :: int32)" by (simp add: INT_MAX_def)
  then show ?thesis using assms False unfolding relax_alt sound_def
    by (auto simp: subscript_def split: option.splits)
qed

lemma sound_foldl_relax:
  "sound graph s st \<Longrightarrow> \<forall>nb \<in> set nbs. reachable graph s (fst nb) \<Longrightarrow>
   sound graph s (foldl (relax cd cn) st nbs)"
proof (induction nbs arbitrary: st)
  case Nil then show ?case by simp
next
  case (Cons nb nbs)
  have "sound graph s (relax cd cn st (fst nb, snd nb))"
    using Cons.prems by (intro sound_relax) simp_all
  then show ?case using Cons by simp
qed

lemma sound_step:
  assumes "sound graph s st" "pq st \<noteq> []"
  shows "sound graph s (step graph st)"
proof -
  let ?top = "pq_top (pq st)"
  let ?st2 = "st\<lparr>pq := pq_pop (pq st), distances := snd (subscript (distances st) (snd ?top))\<rparr>"
  have top: "reachable graph s (snd ?top)"
    using assms pq_top_mem [of "pq st"] by (auto simp: sound_def)
  have "INT_MAX \<noteq> (0 :: int32)" by (simp add: INT_MAX_def)
  then have st2: "sound graph s ?st2"
    using assms(1) top set_remove1_subset [of ?top "pq st"] unfolding sound_def pq_pop_def
    by (auto simp: subscript_def split: option.splits)
  have "sound graph s (foldl (relax (fst ?top) (snd ?top)) ?st2 nbs)"
    if "map_of graph (snd ?top) = Some nbs" for nbs
  proof (rule sound_foldl_relax [OF st2], rule ballI)
    fix nb assume "nb \<in> set nbs"
    then have "edge graph (snd ?top) (fst nb) \<noteq> None"
      using edge_of_neighbor [OF that, of "fst nb" "snd nb"] by simp
    then show "reachable graph s (fst nb)" using top reachable_edge by blast
  qed
  then show ?thesis using st2
    by (auto simp: step_def Let_def split_beta split: option.splits)
qed

lemma sound_loop: "sound graph s st \<Longrightarrow> sound graph s (dijkstra_loop graph st)"
proof (induction graph st rule: dijkstra_loop.induct)
  case (1 graph st)
  show ?case
  proof (cases "pq st = []")
    case True
    then show ?thesis using "1.prems" by (simp add: dijkstra_loop.simps)
  next
    case False
    then show ?thesis using 1 sound_step [of graph s st]
      by (subst dijkstra_loop.simps) simp
  qed
qed

lemma init_distances_eq:
  "init_distances graph n = (if n \<in> fst ` set graph then Some INT_MAX else None)"
proof -
  have "foldl (\<lambda>m entry. m(fst entry \<mapsto> INT_MAX)) m0 graph n
        = (if n \<in> fst ` set graph then Some INT_MAX else m0 n)" for m0
    by (induction graph arbitrary: m0) auto
  then show ?thesis by (simp add: init_distances_def)
qed

lemma dijkstra_shortest_path_eq:
  "dijkstra_shortest_path graph s =
     (distances (dijkstra_loop graph (init_state graph s)),
      predecessors (dijkstra_loop graph (init_state graph s)))"
  by (simp add: dijkstra_shortest_path_def init_state_def Let_def)

lemma INT_MAX_neq_0: "INT_MAX \<noteq> 0"
  by (simp add: INT_MAX_def)

lemma sound_init: "sound graph s (init_state graph s)"
  using INT_MAX_neq_0
  by (auto simp: sound_def init_state_def init_distances_eq pq_push_def reachable_refl)

text \<open>
  What the program does for a node that is not reachable from the start node, whatever the
  weights are: the node has no predecessor entry; in the distance map it holds the sentinel
  when it is a key of the graph, and has no entry at all when it is not, since the
  distances are initialised from the keys of the graph only.
\<close>

lemma unreachable_nodes:
  assumes "\<not> reachable graph start_node n"
  shows "(n \<in> fst ` set graph \<longrightarrow> fst (dijkstra_shortest_path graph start_node) n = Some INT_MAX) \<and>
         (n \<notin> fst ` set graph \<longrightarrow> fst (dijkstra_shortest_path graph start_node) n = None) \<and>
         snd (dijkstra_shortest_path graph start_node) n = None"
proof -
  have "sound graph start_node (dijkstra_loop graph (init_state graph start_node))"
    by (rule sound_loop [OF sound_init])
  then show ?thesis using assms unfolding sound_def dijkstra_shortest_path_eq
    by (cases "distances (dijkstra_loop graph (init_state graph start_node)) n";
        cases "predecessors (dijkstra_loop graph (init_state graph start_node)) n") auto
qed

lemma closed_set_last:
  "is_path graph p \<Longrightarrow> \<forall>u \<in> S. \<forall>v. edge graph u v \<noteq> None \<longrightarrow> v \<in> S \<Longrightarrow> hd p \<in> S
   \<Longrightarrow> last p \<in> S"
proof (induction graph p rule: is_path.induct)
  case (3 graph u v rest)
  from "3.prems" have "u \<in> S" "edge graph u v \<noteq> None" by simp_all
  then have "v \<in> S" using "3.prems"(2) by blast
  then show ?case using 3 by simp
qed simp_all

lemma reachable_closed_set:
  assumes "reachable graph s t" "s \<in> S" "\<forall>u \<in> S. \<forall>v. edge graph u v \<noteq> None \<longrightarrow> v \<in> S"
  shows "t \<in> S"
proof -
  obtain p where "is_path graph p" "hd p = s" "last p = t"
    using assms(1) by (auto simp: reachable_def path_from_to_def)
  then show ?thesis using closed_set_last [of graph p S] assms(2,3) by simp
qed

lemma two_component_closed:
  "\<forall>u \<in> {''A'', ''B''}. \<forall>v. edge two_component_graph u v \<noteq> None \<longrightarrow> v \<in> {''A'', ''B''}"
  by (simp add: edge_def two_component_graph_def)

lemma two_component_unreachable:
  assumes "n \<notin> {''A'', ''B''}"
  shows "\<not> reachable two_component_graph ''A'' n"
proof
  assume "reachable two_component_graph ''A'' n"
  then have "n \<in> {''A'', ''B''}"
    using reachable_closed_set [OF _ _ two_component_closed, of "''A''" n] by simp
  then show False using assms by simp
qed

lemma unreachable_key_has_sentinel:
  "\<not> reachable two_component_graph ''A'' ''C'' \<and>
   fst (dijkstra_shortest_path two_component_graph ''A'') ''C'' = Some INT_MAX \<and>
   snd (dijkstra_shortest_path two_component_graph ''A'') ''C'' = None"
proof -
  have h: "\<not> reachable two_component_graph ''A'' ''C''"
    by (rule two_component_unreachable) simp
  show ?thesis using h unreachable_nodes [OF h] by (simp add: two_component_graph_def)
qed

text \<open>
  Claim C3: every node that is not reachable from the start node has the sentinel in the
  distance map and no predecessor entry.  The program misses it for a node that occurs
  only as a neighbour: in the graph A: {B: 1}, C: {D: 1} with start node A, the node D is
  not reachable and the returned distance map has no entry for it, although the comment
  on the initialisation (source line 34) has all nodes start with the infinite distance.
\<close>

theorem unreachable_neighbor_without_sentinel:
  "nonneg_weights two_component_graph \<and>
   \<not> reachable two_component_graph ''A'' ''D'' \<and>
   fst (dijkstra_shortest_path two_component_graph ''A'') ''D'' = None"
proof -
  have "\<not> reachable two_component_graph ''A'' ''D''"
    by (rule two_component_unreachable) simp
  moreover have "nonneg_weights two_component_graph" by code_simp
  moreover have "fst (dijkstra_shortest_path two_component_graph ''A'') ''D'' = None"
    by code_simp
  ultimately show ?thesis by blast
qed

section \<open>The invariant of the main loop\<close>

subsection \<open>Edges and weights\<close>

lemma strictly_ascending_distinct: "strictly_ascending kvs \<Longrightarrow> distinct (map fst kvs)"
  by (simp add: strictly_ascending_def strict_sorted_iff)

lemma wf_graph_distinct: "wf_graph graph \<Longrightarrow> distinct (map fst graph)"
  by (simp add: wf_graph_def strictly_ascending_distinct)

lemma wf_graph_inner_distinct:
  "wf_graph graph \<Longrightarrow> map_of graph u = Some nbs \<Longrightarrow> distinct (map fst nbs)"
proof -
  assume "wf_graph graph" "map_of graph u = Some nbs"
  then have "strictly_ascending (snd (u, nbs))"
    unfolding wf_graph_def list_all_iff by (blast dest: map_of_SomeD)
  then show ?thesis by (simp add: strictly_ascending_distinct)
qed

lemma edge_neighbor:
  "wf_graph graph \<Longrightarrow> map_of graph u = Some nbs \<Longrightarrow> (v, w) \<in> set nbs \<Longrightarrow> edge graph u v = Some w"
  using wf_graph_inner_distinct [of graph u nbs] by (simp add: edge_def)

lemma edgeD:
  "edge graph u v = Some w \<Longrightarrow> \<exists>nbs. map_of graph u = Some nbs \<and> (v, w) \<in> set nbs"
  by (auto simp: edge_def split: option.splits dest: map_of_SomeD)

lemma edge_key: "edge graph u v = Some w \<Longrightarrow> u \<in> fst ` set graph"
  by (auto simp: edge_def split: option.splits dest!: map_of_SomeD intro: rev_image_eqI)

lemma edge_nonneg:
  assumes "nonneg_weights graph" "edge graph u v = Some w"
  shows "0 \<le> sint w"
proof -
  obtain nbs where "map_of graph u = Some nbs" "(v, w) \<in> set nbs"
    using edgeD [OF assms(2)] by blast
  then have "(u, nbs) \<in> set graph" "(v, w) \<in> set nbs" by (auto dest: map_of_SomeD)
  then have "0 \<le>s w" using assms(1) by (force simp: nonneg_weights_def list_all_iff)
  then show ?thesis by (simp add: word_sle_eq)
qed

lemma sum_list_nonneg_member:
  fixes xs :: "int list"
  shows "\<forall>y \<in> set xs. 0 \<le> y \<Longrightarrow> x \<in> set xs \<Longrightarrow> x \<le> sum_list xs"
proof (induction xs)
  case Nil then show ?case by simp
next
  case (Cons a xs)
  have "0 \<le> sum_list xs" using Cons.prems(1) by (intro sum_list_nonneg) simp
  then show ?case using Cons by auto
qed

lemma out_weight_nonneg:
  assumes "nonneg_weights graph"
  shows "0 \<le> out_weight graph u"
proof (cases "map_of graph u")
  case None then show ?thesis by (simp add: out_weight_def)
next
  case (Some nbs)
  then have "(u, nbs) \<in> set graph" by (rule map_of_SomeD)
  then have "\<forall>nb \<in> set nbs. 0 \<le>s snd nb"
    using assms by (force simp: nonneg_weights_def list_all_iff)
  then have "0 \<le> (\<Sum>nb\<leftarrow>nbs. sint (snd nb))"
    by (intro sum_list_nonneg) (auto simp: word_sle_eq)
  then show ?thesis using Some by (simp add: out_weight_def)
qed

lemma edge_le_out_weight:
  assumes "nonneg_weights graph" "edge graph u v = Some w"
  shows "sint w \<le> out_weight graph u"
proof -
  obtain nbs where nbs: "map_of graph u = Some nbs" "(v, w) \<in> set nbs"
    using edgeD [OF assms(2)] by blast
  then have "(u, nbs) \<in> set graph" by (auto dest: map_of_SomeD)
  then have "\<forall>nb \<in> set nbs. 0 \<le>s snd nb"
    using assms(1) by (force simp: nonneg_weights_def list_all_iff)
  then have "\<forall>y \<in> set (map (\<lambda>nb. sint (snd nb)) nbs). 0 \<le> y"
    by (auto simp: word_sle_eq)
  moreover have "sint w \<in> set (map (\<lambda>nb. sint (snd nb)) nbs)"
    using nbs(2) by force
  ultimately have "sint w \<le> sum_list (map (\<lambda>nb. sint (snd nb)) nbs)"
    by (rule sum_list_nonneg_member)
  then show ?thesis using nbs(1) by (simp add: out_weight_def)
qed

lemma total_weight_keys:
  assumes "distinct (map fst graph)"
  shows "total_weight graph = (\<Sum>u \<in> fst ` set graph. out_weight graph u)"
proof -
  have "map (\<lambda>entry. \<Sum>nb\<leftarrow>snd entry. sint (snd nb)) graph = map (out_weight graph) (map fst graph)"
    using assms by (auto simp: out_weight_def)
  then have "total_weight graph = sum_list (map (out_weight graph) (map fst graph))"
    unfolding total_weight_def by (rule arg_cong)
  also have "\<dots> = sum (out_weight graph) (set (map fst graph))"
    using assms by (rule sum_list_distinct_conv_sum_set)
  finally show ?thesis by simp
qed

subsection \<open>Walks from the start node\<close>

lemma rwalk_path:
  "rwalk graph s xs c \<Longrightarrow>
     is_path graph (rev xs) \<and> hd (rev xs) = s \<and> path_weight graph (rev xs) = c \<and> xs \<noteq> []"
proof (induction rule: rwalk.induct)
  case rwalk_start then show ?case by simp
next
  case (rwalk_edge u xs c v w)
  have ne: "rev xs @ [u] \<noteq> []" by simp
  have "is_path graph (rev xs @ [u])" using rwalk_edge.IH by simp
  moreover have "edge graph (last (rev xs @ [u])) v \<noteq> None" using rwalk_edge.hyps(2) by simp
  ultimately have "is_path graph ((rev xs @ [u]) @ [v])" by (rule is_path_snoc)
  moreover have "path_weight graph ((rev xs @ [u]) @ [v]) = c + sint w"
    using rwalk_edge by (subst path_weight_snoc [OF ne]) simp
  moreover have "hd ((rev xs @ [u]) @ [v]) = s"
    using rwalk_edge.IH by (auto simp: hd_append split: if_splits)
  ultimately show ?case by simp
qed

lemma path_rwalk:
  "is_path graph p \<Longrightarrow> rwalk graph (hd p) (rev p) (path_weight graph p)"
proof (induction p rule: rev_induct)
  case Nil then show ?case by simp
next
  case (snoc v p)
  show ?case
  proof (cases "p = []")
    case True then show ?thesis by (simp add: rwalk.rwalk_start)
  next
    case False
    then have p: "is_path graph p" and e: "edge graph (last p) v \<noteq> None"
      using is_path_snocD [OF snoc.prems] by simp_all
    obtain w where w: "edge graph (last p) v = Some w" using e by blast
    have "rwalk graph (hd p) (last p # rev (butlast p)) (path_weight graph p)"
      using snoc.IH [OF p] False by (metis append_butlast_last_id rev.simps(2) rev_rev_ident rev_swap)
    then have "rwalk graph (hd p) (v # last p # rev (butlast p)) (path_weight graph p + sint w)"
      using w by (rule rwalk.rwalk_edge)
    moreover have "v # last p # rev (butlast p) = rev (p @ [v])"
      using False by (metis append_butlast_last_id rev.simps(2) rev_append rev_rev_ident rev_swap append_Cons append_Nil)
    ultimately show ?thesis using False w by (simp add: path_weight_snoc)
  qed
qed

lemma gpath_rwalk: "gpath graph s d xs c \<Longrightarrow> rwalk graph s xs c"
  by (induction rule: gpath.induct) (auto intro: rwalk.intros)

lemma gpath_mono:
  assumes "\<And>n v. d n = Some v \<Longrightarrow> \<exists>v'. d' n = Some v' \<and> sint v' \<le> sint v"
  shows "gpath graph s d xs c \<Longrightarrow> gpath graph s d' xs c"
proof (induction rule: gpath.induct)
  case gpath_start then show ?case by (rule gpath.gpath_start)
next
  case (gpath_edge u xs c v w dv)
  obtain dv' where "d' v = Some dv'" "sint dv' \<le> sint dv"
    using assms [OF gpath_edge.hyps(4)] by blast
  then show ?case using gpath_edge gpath.gpath_edge [of graph s d' u xs c v w dv'] by simp
qed

lemma gpath_distinct: "gpath graph s d xs c \<Longrightarrow> distinct xs"
  by (induction rule: gpath.induct) auto

lemma gpath_nonneg:
  assumes "nonneg_weights graph"
  shows "gpath graph s d xs c \<Longrightarrow> 0 \<le> c"
proof (induction rule: gpath.induct)
  case gpath_start then show ?case by simp
next
  case (gpath_edge u xs c v w dv)
  then show ?case using edge_nonneg [OF assms gpath_edge.hyps(2)] by simp
qed

lemma gpath_member:
  assumes "nonneg_weights graph" "d s = Some 0"
  shows "gpath graph s d xs c \<Longrightarrow> m \<in> set xs \<Longrightarrow> \<exists>dm. d m = Some dm \<and> sint dm \<le> c"
proof (induction rule: gpath.induct)
  case gpath_start then show ?case using assms(2) by simp
next
  case (gpath_edge u xs c v w dv)
  have "0 \<le> sint w" using assms(1) gpath_edge.hyps(2) by (rule edge_nonneg)
  then show ?case using gpath_edge by (cases "m = v") fastforce+
qed

lemma gpath_tail_keys: "gpath graph s d xs c \<Longrightarrow> set (tl xs) \<subseteq> fst ` set graph"
  by (induction rule: gpath.induct) (auto dest: edge_key)

lemma gpath_bound:
  assumes "nonneg_weights graph"
  shows "gpath graph s d xs c \<Longrightarrow> c \<le> (\<Sum>x \<in> set (tl xs). out_weight graph x)"
proof (induction rule: gpath.induct)
  case gpath_start then show ?case by simp
next
  case (gpath_edge u xs c v w dv)
  have "u \<notin> set xs" using gpath_distinct [OF gpath_edge.hyps(1)] by simp
  then have "(\<Sum>x \<in> set (u # xs). out_weight graph x) = out_weight graph u + (\<Sum>x \<in> set xs. out_weight graph x)"
    by simp
  moreover have "sint w \<le> out_weight graph u"
    using assms gpath_edge.hyps(2) by (rule edge_le_out_weight)
  ultimately show ?case using gpath_edge.IH by simp
qed

lemma gpath_next_fits:
  assumes "wf_graph graph" "nonneg_weights graph"
    and "gpath graph s d (u # xs) c" "edge graph u v = Some w"
  shows "c + sint w \<le> total_weight graph"
proof -
  have "u \<notin> set xs" using gpath_distinct [OF assms(3)] by simp
  then have split: "(\<Sum>x \<in> set (u # xs). out_weight graph x)
      = out_weight graph u + (\<Sum>x \<in> set xs. out_weight graph x)"
    by simp
  have "c \<le> (\<Sum>x \<in> set xs. out_weight graph x)"
    using gpath_bound [OF assms(2,3)] by simp
  moreover have "sint w \<le> out_weight graph u"
    using assms(2,4) by (rule edge_le_out_weight)
  ultimately have "c + sint w \<le> (\<Sum>x \<in> set (u # xs). out_weight graph x)"
    using split by simp
  also have "\<dots> \<le> (\<Sum>x \<in> fst ` set graph. out_weight graph x)"
  proof (rule sum_mono2)
    show "finite (fst ` set graph)" by simp
    show "set (u # xs) \<subseteq> fst ` set graph"
      using gpath_tail_keys [OF assms(3)] edge_key [OF assms(4)] by simp
    show "\<And>b. b \<in> fst ` set graph - set (u # xs) \<Longrightarrow> 0 \<le> out_weight graph b"
      using assms(2) by (simp add: out_weight_nonneg)
  qed
  also have "\<dots> = total_weight graph"
    using total_weight_keys [OF wf_graph_distinct [OF assms(1)]] by simp
  finally show ?thesis .
qed

subsection \<open>Signed addition without wrap-around\<close>

lemma sint_INT_MAX: "sint INT_MAX = 2147483647"
  by (simp add: INT_MAX_def)

lemma sint_add_exact:
  fixes a b :: int32
  assumes "0 \<le> sint a" "0 \<le> sint b" "sint a + sint b < 2 ^ 31"
  shows "sint (a + b) = sint a + sint b"
proof -
  have "sint (a + b) = signed_take_bit 31 (sint a + sint b)"
    by (simp add: sint_word_ariths)
  also have "\<dots> = sint a + sint b"
    using assms by (intro signed_take_bit_int_eq_self) simp_all
  finally show ?thesis .
qed

lemma sint_eqI: "sint (a :: int32) = sint b \<Longrightarrow> a = b"
  by (rule signed_word_eqI)

lemma inv_relaxedD:
  "inv_relaxed graph s pend d q \<Longrightarrow> n \<in> tracked graph s \<Longrightarrow> d n = Some v \<Longrightarrow> v \<noteq> INT_MAX
   \<Longrightarrow> (v, n) \<notin> set q \<Longrightarrow> edge graph n m = Some w
   \<Longrightarrow> (n, m) \<in> pend \<or> (\<exists>dm. d m = Some dm \<and> sint dm \<le> sint v + sint w)"
  unfolding inv_relaxed_def by blast

lemma inv_relaxedI:
  assumes "\<And>n v m w. n \<in> tracked graph s \<Longrightarrow> d n = Some v \<Longrightarrow> v \<noteq> INT_MAX
    \<Longrightarrow> (v, n) \<notin> set q \<Longrightarrow> edge graph n m = Some w
    \<Longrightarrow> (n, m) \<in> pend \<or> (\<exists>dm. d m = Some dm \<and> sint dm \<le> sint v + sint w)"
  shows "inv_relaxed graph s pend d q"
  unfolding inv_relaxed_def using assms by blast

lemma inv_pathD:
  "inv_path graph s d \<Longrightarrow> n \<in> tracked graph s \<Longrightarrow> d n = Some v \<Longrightarrow> v \<noteq> INT_MAX
   \<Longrightarrow> \<exists>xs. gpath graph s d (n # xs) (sint v)"
  unfolding inv_path_def by blast

lemma inv_pathI:
  assumes "\<And>n v. n \<in> tracked graph s \<Longrightarrow> d n = Some v \<Longrightarrow> v \<noteq> INT_MAX
    \<Longrightarrow> \<exists>xs. gpath graph s d (n # xs) (sint v)"
  shows "inv_path graph s d"
  unfolding inv_path_def using assms by blast

lemma inv_predD:
  "inv_pred graph s d pr \<Longrightarrow> pr n = Some u \<Longrightarrow>
     \<exists>w du dn. edge graph u n = Some w \<and> d u = Some du \<and> du \<noteq> INT_MAX \<and>
        d n = Some dn \<and> dn \<noteq> INT_MAX \<and> sint du + sint w \<le> sint dn"
  unfolding inv_pred_def by blast

lemma inv_pred_start: "inv_pred graph s d pr \<Longrightarrow> pr s = None"
  unfolding inv_pred_def by blast

lemma inv_pred_has:
  "inv_pred graph s d pr \<Longrightarrow> n \<in> tracked graph s \<Longrightarrow> n \<noteq> s \<Longrightarrow> d n = Some v \<Longrightarrow> v \<noteq> INT_MAX
   \<Longrightarrow> pr n \<noteq> None"
  unfolding inv_pred_def by blast

lemma inv_pred_chain: "inv_pred graph s d pr \<Longrightarrow> chain pr n"
  unfolding inv_pred_def by blast

lemma inv_predI:
  assumes "pr s = None"
    and "\<And>n u. pr n = Some u \<Longrightarrow>
       \<exists>w du dn. edge graph u n = Some w \<and> d u = Some du \<and> du \<noteq> INT_MAX \<and>
          d n = Some dn \<and> dn \<noteq> INT_MAX \<and> sint du + sint w \<le> sint dn"
    and "\<And>n v. n \<in> tracked graph s \<Longrightarrow> n \<noteq> s \<Longrightarrow> d n = Some v \<Longrightarrow> v \<noteq> INT_MAX
       \<Longrightarrow> pr n \<noteq> None"
    and "\<And>n. chain pr n"
  shows "inv_pred graph s d pr"
  unfolding inv_pred_def using assms by blast

lemma inv_queueD:
  "inv_queue graph s d q \<Longrightarrow> (y, n) \<in> set q \<Longrightarrow>
     n \<in> tracked graph s \<and> y \<noteq> INT_MAX \<and> (\<exists>v. d n = Some v \<and> sint v \<le> sint y)"
  unfolding inv_queue_def by force

lemma inv_queueI:
  assumes "\<And>y n. (y, n) \<in> set q \<Longrightarrow>
     n \<in> tracked graph s \<and> y \<noteq> INT_MAX \<and> (\<exists>v. d n = Some v \<and> sint v \<le> sint y)"
  shows "inv_queue graph s d q"
  unfolding inv_queue_def using assms by force

lemma inv_distD:
  assumes "inv_dist graph s d"
  shows "d s = Some 0" "\<And>n v. d n = Some v \<Longrightarrow> 0 \<le> sint v"
    "\<And>n. n \<in> fst ` set graph \<Longrightarrow> d n \<noteq> None"
    "\<And>n. n \<notin> tracked graph s \<Longrightarrow> d n = None \<or> d n = Some 0"
  using assms unfolding inv_dist_def by blast+

lemma inv_distI:
  assumes "d s = Some 0" "\<And>n v. d n = Some v \<Longrightarrow> 0 \<le> sint v"
    "\<And>n. n \<in> fst ` set graph \<Longrightarrow> d n \<noteq> None"
    "\<And>n. n \<notin> tracked graph s \<Longrightarrow> d n = None \<or> d n = Some 0"
  shows "inv_dist graph s d"
  unfolding inv_dist_def using assms by blast

subsection \<open>Predecessor chains stay acyclic\<close>

lemma chain_update_below:
  assumes mono: "\<And>n p. pr n = Some p \<Longrightarrow> r p \<le> (r n :: int)"
  shows "chain pr x \<Longrightarrow> r x < r m \<Longrightarrow> chain (pr(m \<mapsto> u)) x"
proof (induction rule: chain.induct)
  case (chain_root n)
  then have "(pr(m \<mapsto> u)) n = None" by auto
  then show ?case by (rule chain.chain_root)
next
  case (chain_link n p)
  have "r p < r m" using mono [OF chain_link.hyps(1)] chain_link.prems by simp
  then have "chain (pr(m \<mapsto> u)) p" by (rule chain_link.IH)
  moreover have "(pr(m \<mapsto> u)) n = Some p" using chain_link by auto
  ultimately show ?case by (rule chain.chain_link [rotated])
qed

lemma chain_update:
  assumes all: "\<forall>n. chain pr n"
    and mono: "\<And>n p. pr n = Some p \<Longrightarrow> r p \<le> (r n :: int)"
    and below: "r u < r m"
  shows "chain (pr(m \<mapsto> u)) n"
proof -
  have "chain (pr(m \<mapsto> u)) u"
    using chain_update_below [of pr r u m u] mono all below by blast
  then have m: "chain (pr(m \<mapsto> u)) m"
    by (intro chain.chain_link [of _ m u]) simp_all
  have "chain pr n \<Longrightarrow> chain (pr(m \<mapsto> u)) n"
  proof (induction rule: chain.induct)
    case (chain_root n)
    show ?case
    proof (cases "n = m")
      case True with m show ?thesis by (simp only:)
    next
      case False
      then have "(pr(m \<mapsto> u)) n = None" using chain_root by simp
      then show ?thesis by (rule chain.chain_root)
    qed
  next
    case (chain_link n p)
    show ?case
    proof (cases "n = m")
      case True with m show ?thesis by (simp only:)
    next
      case False
      then have "(pr(m \<mapsto> u)) n = Some p" using chain_link by simp
      then show ?thesis using chain_link.IH by (rule chain.chain_link)
    qed
  qed
  then show ?thesis using all by blast
qed

subsection \<open>The candidate distance of a relaxation\<close>

lemma candidate:
  assumes adm: "admissible graph"
    and dist: "inv_dist graph s d" and path: "inv_path graph s d"
    and u: "d u = Some x" "x \<noteq> INT_MAX" and e: "edge graph u m = Some w"
  shows "0 \<le> sint x" "0 \<le> sint w" "sint x + sint w < sint INT_MAX"
    "sint (x + w) = sint x + sint w" "\<exists>xs. gpath graph s d (u # xs) (sint x)"
proof -
  show x0: "0 \<le> sint x" using inv_distD(2) [OF dist u(1)] .
  show w0: "0 \<le> sint w" using adm e by (auto simp: admissible_def intro: edge_nonneg)
  have "u \<in> tracked graph s" using edge_key [OF e] by (simp add: tracked_def)
  then show g: "\<exists>xs. gpath graph s d (u # xs) (sint x)"
    using inv_pathD [OF path _ u] by blast
  then obtain xs where "gpath graph s d (u # xs) (sint x)" by blast
  then have "sint x + sint w \<le> total_weight graph"
    using adm e gpath_next_fits [of graph s d u xs "sint x" m w] by (simp add: admissible_def)
  then show lt: "sint x + sint w < sint INT_MAX" using adm by (simp add: admissible_def)
  then have "sint x + sint w < 2 ^ 31" by (simp add: sint_INT_MAX)
  then show "sint (x + w) = sint x + sint w" using x0 w0 by (intro sint_add_exact) simp_all
qed

subsection \<open>A relaxation that does not improve the neighbour\<close>

lemma inv_skip_present:
  assumes adm: "admissible graph"
    and inv: "inv graph s pend d pr q"
    and u: "d u = Some x" "x \<noteq> INT_MAX" and e: "edge graph u m = Some w"
    and old: "d m = Some old" and skip: "\<not> x + w <s old"
  shows "inv graph s (pend - {(u, m)}) d pr q"
proof -
  have dist: "inv_dist graph s d" and queue: "inv_queue graph s d q"
    and path: "inv_path graph s d" and relaxed: "inv_relaxed graph s pend d q"
    and pred: "inv_pred graph s d pr"
    using inv by (simp_all add: inv_def)
  note cand = candidate [OF adm dist path u e]
  have le: "sint old \<le> sint x + sint w"
    using skip cand(4) by (simp add: word_sless_alt)
  have "inv_relaxed graph s (pend - {(u, m)}) d q"
  proof (rule inv_relaxedI)
    fix n v k w'
    assume n: "n \<in> tracked graph s" "d n = Some v" "v \<noteq> INT_MAX" "(v, n) \<notin> set q"
      and k: "edge graph n k = Some w'"
    note was = inv_relaxedD [OF relaxed n k]
    show "(n, k) \<in> pend - {(u, m)} \<or> (\<exists>dk. d k = Some dk \<and> sint dk \<le> sint v + sint w')"
    proof (cases "n = u \<and> k = m")
      case True
      then have "v = x" "w' = w" using n(2) u(1) k e by simp_all
      then show ?thesis using old le True by simp
    next
      case False then show ?thesis using was by auto
    qed
  qed
  then show ?thesis using dist queue path pred by (simp add: inv_def)
qed

lemma inv_skip_absent:
  assumes adm: "admissible graph"
    and inv: "inv graph s pend d pr q"
    and u: "d u = Some x" "x \<noteq> INT_MAX" and e: "edge graph u m = Some w"
    and None: "d m = None"
  shows "inv graph s (pend - {(u, m)}) (d(m \<mapsto> 0)) pr q"
proof -
  have dist: "inv_dist graph s d" and queue: "inv_queue graph s d q"
    and path: "inv_path graph s d" and relaxed: "inv_relaxed graph s pend d q"
    and pred: "inv_pred graph s d pr"
    using inv by (simp_all add: inv_def)
  note cand = candidate [OF adm dist path u e]
  have m_key: "m \<notin> fst ` set graph" using inv_distD(3) [OF dist, of m] None by blast
  have m_s: "m \<noteq> s" using inv_distD(1) [OF dist] None by auto
  have m_tr: "m \<notin> tracked graph s" using m_key m_s by (simp add: tracked_def)
  have other: "(d(m \<mapsto> 0)) n = d n" if "n \<in> tracked graph s" for n
    using that m_tr by auto
  have grow: "\<exists>v'. (d(m \<mapsto> 0)) n = Some v' \<and> sint v' \<le> sint v" if "d n = Some v" for n v
    using that None by (cases "n = m") auto
  have "inv_dist graph s (d(m \<mapsto> 0))"
  proof (rule inv_distI)
    show "(d(m \<mapsto> 0)) s = Some 0" using inv_distD(1) [OF dist] by simp
    show "0 \<le> sint v" if "(d(m \<mapsto> 0)) n = Some v" for n v
      using that inv_distD(2) [OF dist, of n v] by (cases "n = m") auto
    show "(d(m \<mapsto> 0)) n \<noteq> None" if "n \<in> fst ` set graph" for n
      using inv_distD(3) [OF dist that] by simp
    show "(d(m \<mapsto> 0)) n = None \<or> (d(m \<mapsto> 0)) n = Some 0" if "n \<notin> tracked graph s" for n
      using inv_distD(4) [OF dist that] by simp
  qed
  moreover have "inv_queue graph s (d(m \<mapsto> 0)) q"
  proof (rule inv_queueI)
    fix y n assume "(y, n) \<in> set q"
    from inv_queueD [OF queue this] other [of n]
    show "n \<in> tracked graph s \<and> y \<noteq> INT_MAX \<and> (\<exists>v. (d(m \<mapsto> 0)) n = Some v \<and> sint v \<le> sint y)"
      by simp
  qed
  moreover have "inv_path graph s (d(m \<mapsto> 0))"
  proof (rule inv_pathI)
    fix n v assume n: "n \<in> tracked graph s" "(d(m \<mapsto> 0)) n = Some v" "v \<noteq> INT_MAX"
    then have "d n = Some v" using other [of n] by simp
    then obtain xs where "gpath graph s d (n # xs) (sint v)"
      using inv_pathD [OF path n(1) _ n(3)] by blast
    then have "gpath graph s (d(m \<mapsto> 0)) (n # xs) (sint v)"
      using gpath_mono [of d "d(m \<mapsto> 0)" graph s "n # xs" "sint v"] grow by blast
    then show "\<exists>xs. gpath graph s (d(m \<mapsto> 0)) (n # xs) (sint v)" by blast
  qed
  moreover have "inv_relaxed graph s (pend - {(u, m)}) (d(m \<mapsto> 0)) q"
  proof (rule inv_relaxedI)
    fix n v k w'
    assume n: "n \<in> tracked graph s" "(d(m \<mapsto> 0)) n = Some v" "v \<noteq> INT_MAX" "(v, n) \<notin> set q"
      and k: "edge graph n k = Some w'"
    have dn: "d n = Some v" using n(2) other [OF n(1)] by simp
    note was = inv_relaxedD [OF relaxed n(1) dn n(3,4) k]
    show "(n, k) \<in> pend - {(u, m)}
          \<or> (\<exists>dk. (d(m \<mapsto> 0)) k = Some dk \<and> sint dk \<le> sint v + sint w')"
    proof (cases "k = m")
      case True
      show ?thesis
      proof (cases "n = u")
        case True
        then have "v = x" "w' = w" using dn u(1) k e \<open>k = m\<close> by simp_all
        then show ?thesis using \<open>k = m\<close> cand(1,2) by simp
      next
        case False
        have "(n, k) \<in> pend" using was None True by auto
        then show ?thesis using False by simp
      qed
    next
      case False then show ?thesis using was by auto
    qed
  qed
  moreover have "inv_pred graph s (d(m \<mapsto> 0)) pr"
  proof (rule inv_predI)
    show "pr s = None" by (rule inv_pred_start [OF pred])
    show "chain pr n" for n by (rule inv_pred_chain [OF pred])
    show "pr n \<noteq> None"
      if "n \<in> tracked graph s" "n \<noteq> s" "(d(m \<mapsto> 0)) n = Some v" "v \<noteq> INT_MAX" for n v
      using inv_pred_has [OF pred that(1,2) _ that(4)] that(3) other [OF that(1)] by simp
    show "\<exists>w du dn. edge graph p n = Some w \<and> (d(m \<mapsto> 0)) p = Some du \<and> du \<noteq> INT_MAX \<and>
            (d(m \<mapsto> 0)) n = Some dn \<and> dn \<noteq> INT_MAX \<and> sint du + sint w \<le> sint dn"
      if np: "pr n = Some p" for n p
    proof -
      obtain w' du dn where *: "edge graph p n = Some w'" "d p = Some du" "du \<noteq> INT_MAX"
          "d n = Some dn" "dn \<noteq> INT_MAX" "sint du + sint w' \<le> sint dn"
        using inv_predD [OF pred np] by blast
      then have "p \<noteq> m" "n \<noteq> m" using None by auto
      then show ?thesis using * by simp
    qed
  qed
  ultimately show ?thesis by (simp add: inv_def)
qed

lemma inv_skip:
  assumes adm: "admissible graph"
    and inv: "inv graph s pend d pr q"
    and u: "d u = Some x" "x \<noteq> INT_MAX" and e: "edge graph u m = Some w"
    and skip: "\<not> x + w <s fst (subscript d m)"
  shows "inv graph s (pend - {(u, m)}) (snd (subscript d m)) pr q
         \<and> snd (subscript d m) u = Some x"
proof (cases "d m")
  case (Some old)
  then have "snd (subscript d m) = d" "fst (subscript d m) = old"
    by (simp_all add: subscript_def)
  then show ?thesis using inv_skip_present [OF adm inv u e Some] skip u(1) by simp
next
  case None
  then have "snd (subscript d m) = d(m \<mapsto> 0)" by (simp add: subscript_def)
  moreover have "m \<noteq> u" using None u(1) by auto
  ultimately show ?thesis using inv_skip_absent [OF adm inv u e None] u(1) by simp
qed

subsection \<open>A relaxation that improves the neighbour\<close>

lemma inv_update:
  assumes adm: "admissible graph"
    and inv: "inv graph s pend d pr q"
    and u: "d u = Some x" "x \<noteq> INT_MAX" and e: "edge graph u m = Some w"
    and upd: "x + w <s fst (subscript d m)"
  shows "inv graph s (pend - {(u, m)}) (d(m \<mapsto> x + w)) (pr(m \<mapsto> u)) ((x + w, m) # q)
         \<and> (d(m \<mapsto> x + w)) u = Some x"
proof -
  have dist: "inv_dist graph s d" and queue: "inv_queue graph s d q"
    and path: "inv_path graph s d" and relaxed: "inv_relaxed graph s pend d q"
    and pred: "inv_pred graph s d pr"
    using inv by (simp_all add: inv_def)
  have nonneg: "nonneg_weights graph" using adm by (simp add: admissible_def)
  note cand = candidate [OF adm dist path u e]
  let ?new = "x + w"
  let ?d = "d(m \<mapsto> ?new)"
  have new0: "0 \<le> sint ?new" using cand by simp
  have "d m \<noteq> None"
  proof
    assume "d m = None"
    then have "fst (subscript d m) = 0" by (simp add: subscript_def)
    then have "sint ?new < 0" using upd by (simp add: word_sless_alt)
    then show False using new0 by simp
  qed
  then obtain old where old: "d m = Some old" by blast
  then have "fst (subscript d m) = old" by (simp add: subscript_def)
  then have lt: "sint ?new < sint old" using upd by (simp add: word_sless_alt)
  have old0: "old \<noteq> 0" using lt new0 by auto
  have m_tr: "m \<in> tracked graph s"
    using inv_distD(4) [OF dist, of m] old old0 by auto
  have m_s: "m \<noteq> s" using inv_distD(1) [OF dist] old old0 by auto
  have m_u: "m \<noteq> u" using u(1) old lt cand by auto
  have new_max: "?new \<noteq> INT_MAX" using upd by (rule sless_not_INT_MAX)
  obtain xs where xs: "gpath graph s d (u # xs) (sint x)" using cand(5) by blast
  have fresh: "m \<notin> set (u # xs)"
  proof
    assume "m \<in> set (u # xs)"
    then obtain dm where "d m = Some dm" "sint dm \<le> sint x"
      using gpath_member [OF nonneg inv_distD(1) [OF dist] xs] by blast
    then show False using old lt cand by simp
  qed
  have decr: "\<exists>v'. ?d n = Some v' \<and> sint v' \<le> sint v" if "d n = Some v" for n v
    using that old lt by (cases "n = m") auto
  have "inv_dist graph s ?d"
  proof (rule inv_distI)
    show "?d s = Some 0" using inv_distD(1) [OF dist] m_s by simp
    show "0 \<le> sint v" if "?d n = Some v" for n v
      using that inv_distD(2) [OF dist, of n v] new0 by (cases "n = m") auto
    show "?d n \<noteq> None" if "n \<in> fst ` set graph" for n
      using inv_distD(3) [OF dist that] by simp
    show "?d n = None \<or> ?d n = Some 0" if "n \<notin> tracked graph s" for n
      using inv_distD(4) [OF dist that] that m_tr by auto
  qed
  moreover have "inv_queue graph s ?d ((?new, m) # q)"
  proof (rule inv_queueI)
    fix y n assume yn: "(y, n) \<in> set ((?new, m) # q)"
    show "n \<in> tracked graph s \<and> y \<noteq> INT_MAX \<and> (\<exists>v. ?d n = Some v \<and> sint v \<le> sint y)"
    proof (cases "(y, n) = (?new, m)")
      case True then show ?thesis using m_tr new_max by simp
    next
      case False
      then have "(y, n) \<in> set q" using yn by auto
      from inv_queueD [OF queue this] obtain v
        where *: "n \<in> tracked graph s" "y \<noteq> INT_MAX" "d n = Some v" "sint v \<le> sint y" by blast
      obtain v' where "?d n = Some v'" "sint v' \<le> sint v" using decr [OF *(3)] by blast
      then show ?thesis using * by auto
    qed
  qed
  moreover have "inv_path graph s ?d"
  proof (rule inv_pathI)
    fix n v assume n: "n \<in> tracked graph s" "?d n = Some v" "v \<noteq> INT_MAX"
    show "\<exists>xs. gpath graph s ?d (n # xs) (sint v)"
    proof (cases "n = m")
      case True
      have "gpath graph s ?d (u # xs) (sint x)"
        using gpath_mono [of d ?d graph s "u # xs" "sint x"] decr xs by blast
      then have "gpath graph s ?d (m # u # xs) (sint x + sint w)"
        using e fresh cand(4) gpath.gpath_edge [of graph s ?d u xs "sint x" m w ?new] by simp
      then show ?thesis using True n(2) cand(4) by auto
    next
      case False
      then have "d n = Some v" using n(2) by simp
      then obtain ys where "gpath graph s d (n # ys) (sint v)"
        using inv_pathD [OF path n(1) _ n(3)] by blast
      then have "gpath graph s ?d (n # ys) (sint v)"
        using gpath_mono [of d ?d graph s "n # ys" "sint v"] decr by blast
      then show ?thesis by blast
    qed
  qed
  moreover have "inv_relaxed graph s (pend - {(u, m)}) ?d ((?new, m) # q)"
  proof (rule inv_relaxedI)
    fix n v k w'
    assume n: "n \<in> tracked graph s" "?d n = Some v" "v \<noteq> INT_MAX" "(v, n) \<notin> set ((?new, m) # q)"
      and k: "edge graph n k = Some w'"
    have n_m: "n \<noteq> m" using n(2,4) by auto
    then have dn: "d n = Some v" and nq: "(v, n) \<notin> set q" using n(2,4) by simp_all
    note was = inv_relaxedD [OF relaxed n(1) dn n(3) nq k]
    show "(n, k) \<in> pend - {(u, m)} \<or> (\<exists>dk. ?d k = Some dk \<and> sint dk \<le> sint v + sint w')"
    proof (cases "n = u \<and> k = m")
      case True
      then have "v = x" "w' = w" using dn u(1) k e by simp_all
      then show ?thesis using True cand(4) by simp
    next
      case False
      show ?thesis
      proof (cases "(n, k) \<in> pend")
        case True then show ?thesis using False by auto
      next
        case False
        then obtain dk where dk: "d k = Some dk" "sint dk \<le> sint v + sint w'" using was by blast
        obtain dk' where "?d k = Some dk'" "sint dk' \<le> sint dk" using decr [OF dk(1)] by blast
        then show ?thesis using dk(2) by auto
      qed
    qed
  qed
  moreover have "inv_pred graph s ?d (pr(m \<mapsto> u))"
  proof (rule inv_predI)
    show "(pr(m \<mapsto> u)) s = None" using inv_pred_start [OF pred] m_s by simp
    show "(pr(m \<mapsto> u)) n \<noteq> None"
      if "n \<in> tracked graph s" "n \<noteq> s" "?d n = Some v" "v \<noteq> INT_MAX" for n v
    proof (cases "n = m")
      case True then show ?thesis by simp
    next
      case False
      then show ?thesis using inv_pred_has [OF pred that(1,2) _ that(4)] that(3) by simp
    qed
    show "\<exists>w du dn. edge graph p n = Some w \<and> ?d p = Some du \<and> du \<noteq> INT_MAX \<and>
            ?d n = Some dn \<and> dn \<noteq> INT_MAX \<and> sint du + sint w \<le> sint dn"
      if np: "(pr(m \<mapsto> u)) n = Some p" for n p
    proof (cases "n = m")
      case True
      then have "p = u" using np by simp
      then show ?thesis using True e u m_u new_max cand(4) by simp
    next
      case False
      then have "pr n = Some p" using np by simp
      then obtain w' du dn where *: "edge graph p n = Some w'" "d p = Some du" "du \<noteq> INT_MAX"
          "d n = Some dn" "dn \<noteq> INT_MAX" "sint du + sint w' \<le> sint dn"
        using inv_predD [OF pred] by blast
      show ?thesis
      proof (cases "p = m")
        case True
        then have "sint ?new + sint w' \<le> sint dn" using * old lt by simp
        then show ?thesis using True False * new_max by simp
      next
        case False then show ?thesis using \<open>n \<noteq> m\<close> * by simp
      qed
    qed
    show "chain (pr(m \<mapsto> u)) n" for n
    proof (rule chain_update [where r = "rank d"])
      show "\<forall>n. chain pr n" using inv_pred_chain [OF pred] by blast
      show "rank d p \<le> rank d k" if kp: "pr k = Some p" for k p
      proof -
        obtain w' du dn where *: "edge graph p k = Some w'" "d p = Some du"
            "d k = Some dn" "sint du + sint w' \<le> sint dn"
          using inv_predD [OF pred kp] by blast
        have "0 \<le> sint w'" using nonneg *(1) by (rule edge_nonneg)
        then show ?thesis using * by (simp add: rank_def)
      qed
      show "rank d u < rank d m" using u(1) old lt cand by (simp add: rank_def)
    qed
  qed
  ultimately show ?thesis using u(1) m_u by (simp add: inv_def)
qed

subsection \<open>The invariant along the loops\<close>

lemma inv_pend_mono:
  assumes "inv graph s pend d pr q" "pend \<subseteq> pend'"
  shows "inv graph s pend' d pr q"
proof -
  have "inv_relaxed graph s pend' d q"
  proof (rule inv_relaxedI)
    fix n v m w
    assume "n \<in> tracked graph s" "d n = Some v" "v \<noteq> INT_MAX" "(v, n) \<notin> set q"
      "edge graph n m = Some w"
    then have "(n, m) \<in> pend \<or> (\<exists>dm. d m = Some dm \<and> sint dm \<le> sint v + sint w)"
      using assms(1) inv_relaxedD [of graph s pend d q n v m w] by (simp add: inv_def)
    then show "(n, m) \<in> pend' \<or> (\<exists>dm. d m = Some dm \<and> sint dm \<le> sint v + sint w)"
      using assms(2) by blast
  qed
  then show ?thesis using assms(1) by (simp add: inv_def)
qed

lemma inv_relax:
  assumes adm: "admissible graph"
    and inv: "inv_state graph s pend st"
    and u: "distances st u = Some x" "x \<noteq> INT_MAX" and e: "edge graph u m = Some w"
  shows "inv_state graph s (pend - {(u, m)}) (relax x u st (m, w))
         \<and> distances (relax x u st (m, w)) u = Some x"
proof (cases "x + w <s fst (subscript (distances st) m)")
  case True
  then show ?thesis
    using inv_update [OF adm inv [unfolded inv_state_def] u e True]
    by (simp add: relax_alt inv_state_def)
next
  case False
  then show ?thesis
    using inv_skip [OF adm inv [unfolded inv_state_def] u e False]
    by (simp add: relax_alt inv_state_def)
qed

lemma inv_foldl_relax:
  assumes adm: "admissible graph" and nbs: "map_of graph u = Some nbs" and x: "x \<noteq> INT_MAX"
  shows "set rest \<subseteq> set nbs \<Longrightarrow> inv_state graph s ({u} \<times> fst ` set rest) st
    \<Longrightarrow> distances st u = Some x \<Longrightarrow> inv_state graph s {} (foldl (relax x u) st rest)"
proof (induction rest arbitrary: st)
  case Nil then show ?case by simp
next
  case (Cons nb rest)
  obtain m w where nb: "nb = (m, w)" by (cases nb)
  have wf: "wf_graph graph" using adm by (simp add: admissible_def)
  have e: "edge graph u m = Some w"
    using edge_neighbor [OF wf nbs, of m w] Cons.prems(1) nb by simp
  let ?st = "relax x u st (m, w)"
  have step: "inv_state graph s ({u} \<times> fst ` set (nb # rest) - {(u, m)}) ?st"
    and keep: "distances ?st u = Some x"
    using inv_relax [OF adm Cons.prems(2,3) x e] by simp_all
  have "{u} \<times> fst ` set (nb # rest) - {(u, m)} \<subseteq> {u} \<times> fst ` set rest"
    using nb by auto
  then have "inv_state graph s ({u} \<times> fst ` set rest) ?st"
    using step unfolding inv_state_def by (rule inv_pend_mono [rotated])
  then have "inv_state graph s {} (foldl (relax x u) ?st rest)"
    using Cons.IH Cons.prems(1) keep by simp
  then show ?case using nb by simp
qed

lemma inv_pop:
  assumes inv: "inv graph s {} d pr q" and top: "(y, u) \<in> set q" and du: "d u = Some v"
  shows "inv graph s (if v = y then {u} \<times> {m. edge graph u m \<noteq> None} else {}) d pr
           (remove1 (y, u) q)"
proof -
  let ?pend = "if v = y then {u} \<times> {m. edge graph u m \<noteq> None} else {}"
  have queue: "inv_queue graph s d q" and relaxed: "inv_relaxed graph s {} d q"
    using inv by (simp_all add: inv_def)
  have "inv_queue graph s d (remove1 (y, u) q)"
  proof (rule inv_queueI)
    fix y' n assume "(y', n) \<in> set (remove1 (y, u) q)"
    then have "(y', n) \<in> set q" using set_remove1_subset [of "(y, u)" q] by blast
    then show "n \<in> tracked graph s \<and> y' \<noteq> INT_MAX \<and> (\<exists>v. d n = Some v \<and> sint v \<le> sint y')"
      by (rule inv_queueD [OF queue])
  qed
  moreover have "inv_relaxed graph s ?pend d (remove1 (y, u) q)"
  proof (rule inv_relaxedI)
    fix n vn k w
    assume n: "n \<in> tracked graph s" "d n = Some vn" "vn \<noteq> INT_MAX"
      "(vn, n) \<notin> set (remove1 (y, u) q)" and k: "edge graph n k = Some w"
    show "(n, k) \<in> ?pend \<or> (\<exists>dk. d k = Some dk \<and> sint dk \<le> sint vn + sint w)"
    proof (cases "(vn, n) \<in> set q")
      case True
      then have "(vn, n) = (y, u)" using n(4) in_set_remove1 [of "(vn, n)" "(y, u)" q] by blast
      then show ?thesis using n(2) du k by auto
    next
      case False
      then show ?thesis using inv_relaxedD [OF relaxed n(1,2,3) False k] by simp
    qed
  qed
  ultimately show ?thesis using inv by (simp add: inv_def)
qed

lemma inv_step:
  assumes adm: "admissible graph" and inv: "inv_state graph s {} st" and ne: "pq st \<noteq> []"
  shows "inv_state graph s {} (step graph st)"
proof -
  obtain y u where top: "pq_top (pq st) = (y, u)" by (cases "pq_top (pq st)")
  have mem: "(y, u) \<in> set (pq st)" using pq_top_mem [OF ne] top by simp
  have inv': "inv graph s {} (distances st) (predecessors st) (pq st)"
    using inv by (simp add: inv_state_def)
  then have queue: "inv_queue graph s (distances st) (pq st)" by (simp add: inv_def)
  obtain v where v: "y \<noteq> INT_MAX" "distances st u = Some v" "sint v \<le> sint y"
    using inv_queueD [OF queue mem] by blast
  have sub: "subscript (distances st) u = (v, distances st)" using v(2) by (simp add: subscript_def)
  let ?st2 = "st\<lparr>pq := remove1 (y, u) (pq st)\<rparr>"
  note popped = inv_pop [OF inv' mem v(2)]
  show ?thesis
  proof (cases "v <s y")
    case True
    then have "v \<noteq> y" by auto
    then have "inv_state graph s {} ?st2" using popped by (simp add: inv_state_def)
    then show ?thesis using True top sub by (simp add: step_def pq_pop_def Let_def)
  next
    case False
    then have vy: "v = y" using v(3) by (intro sint_eqI) (simp add: word_sless_alt)
    show ?thesis
    proof (cases "map_of graph u")
      case None
      then have "{m. edge graph u m \<noteq> None} = {}" by (simp add: edge_def)
      then have "inv_state graph s {} ?st2" using popped vy by (simp add: inv_state_def)
      then show ?thesis using False top sub None by (simp add: step_def pq_pop_def Let_def)
    next
      case (Some nbs)
      have "m \<in> fst ` set nbs" if em: "edge graph u m \<noteq> None" for m
      proof -
        obtain w where "map_of nbs m = Some w" using em Some by (auto simp: edge_def)
        then have "(m, w) \<in> set nbs" by (rule map_of_SomeD)
        then show ?thesis by (rule rev_image_eqI) simp
      qed
      then have sub': "{u} \<times> {m. edge graph u m \<noteq> None} \<subseteq> {u} \<times> fst ` set nbs" by blast
      have "inv graph s ({u} \<times> {m. edge graph u m \<noteq> None}) (distances st) (predecessors st)
              (remove1 (y, u) (pq st))"
        using popped vy by simp
      then have "inv graph s ({u} \<times> fst ` set nbs) (distances st) (predecessors st)
              (remove1 (y, u) (pq st))"
        using sub' by (rule inv_pend_mono)
      then have "inv_state graph s ({u} \<times> fst ` set nbs) ?st2"
        by (simp add: inv_state_def)
      moreover have "distances ?st2 u = Some y" using v(2) vy by simp
      ultimately have "inv_state graph s {} (foldl (relax y u) ?st2 nbs)"
        using inv_foldl_relax [OF adm Some v(1), of nbs s ?st2] by simp
      then show ?thesis using False top sub Some by (simp add: step_def pq_pop_def Let_def)
    qed
  qed
qed

lemma dijkstra_loop_done: "pq st = [] \<Longrightarrow> dijkstra_loop graph st = st"
  by (subst dijkstra_loop.simps) simp

lemma dijkstra_loop_step: "pq st \<noteq> [] \<Longrightarrow> dijkstra_loop graph st = dijkstra_loop graph (step graph st)"
  using dijkstra_loop.simps [of graph st] by simp

lemma inv_loop:
  "admissible graph \<Longrightarrow> inv_state graph s {} st \<Longrightarrow>
    inv_state graph s {} (dijkstra_loop graph st) \<and> pq (dijkstra_loop graph st) = []"
proof (induction graph st rule: dijkstra_loop.induct)
  case (1 graph st)
  show ?case
  proof (cases "pq st = []")
    case True
    then show ?thesis using "1.prems"(2) by (simp only: dijkstra_loop_done)
  next
    case False
    have "inv_state graph s {} (step graph st)"
      using "1.prems" False by (rule inv_step)
    then have "inv_state graph s {} (dijkstra_loop graph (step graph st))
        \<and> pq (dijkstra_loop graph (step graph st)) = []"
      by (rule "1.IH" [OF False "1.prems"(1)])
    then show ?thesis by (simp only: dijkstra_loop_step [OF False])
  qed
qed

subsection \<open>The initial state\<close>

lemma gpath_start_ex: "\<exists>xs. gpath graph s d (s # xs) (sint (0 :: int32))"
proof -
  have "gpath graph s d (s # []) (sint (0 :: int32))"
    using gpath.gpath_start [of graph s d] by simp
  then show ?thesis by (rule exI [where x = "[]"])
qed

lemma inv_init: "inv_state graph s {} (init_state graph s)"
proof -
  let ?d = "(init_distances graph)(s \<mapsto> 0)"
  have other: "?d n = Some v \<Longrightarrow> v \<noteq> INT_MAX \<Longrightarrow> n = s \<and> v = 0" for n v
    by (auto simp: init_distances_eq split: if_splits)
  have "inv_dist graph s ?d"
  proof (rule inv_distI)
    show "?d s = Some 0" by simp
    show "0 \<le> sint v" if "?d n = Some v" for n v
      using that by (auto simp: init_distances_eq sint_INT_MAX split: if_splits)
    show "?d n \<noteq> None" if "n \<in> fst ` set graph" for n
      using that by (simp add: init_distances_eq)
    show "?d n = None \<or> ?d n = Some 0" if "n \<notin> tracked graph s" for n
      using that by (simp add: init_distances_eq tracked_def)
  qed
  moreover have "inv_queue graph s ?d [(0, s)]"
    using INT_MAX_neq_0 by (intro inv_queueI) (auto simp: tracked_def)
  moreover have "inv_path graph s ?d"
  proof (rule inv_pathI)
    fix n v assume "n \<in> tracked graph s" "?d n = Some v" "v \<noteq> INT_MAX"
    then have "n = s \<and> v = 0" using other by blast
    then show "\<exists>xs. gpath graph s ?d (n # xs) (sint v)"
      using gpath_start_ex [of graph s ?d] by (simp only:)
  qed
  moreover have "inv_relaxed graph s {} ?d [(0, s)]"
  proof (rule inv_relaxedI)
    fix n v m w assume a: "?d n = Some v" "v \<noteq> INT_MAX" and b: "(v, n) \<notin> set [(0, s)]"
    have "n = s \<and> v = 0" using other [OF a] .
    then have False using b by simp
    then show "(n, m) \<in> {} \<or> (\<exists>dm. ?d m = Some dm \<and> sint dm \<le> sint v + sint w)" ..
  qed
  moreover have "inv_pred graph s ?d Map.empty"
  proof (rule inv_predI)
    show "Map.empty n \<noteq> None" if "n \<noteq> s" "?d n = Some v" "v \<noteq> INT_MAX" for n v
      using other [OF that(2,3)] that(1) by blast
    show "chain Map.empty n" for n by (rule chain.chain_root) simp
  qed simp_all
  ultimately show ?thesis by (simp add: inv_state_def inv_def init_state_def pq_push_def)
qed

lemma inv_final:
  assumes "admissible graph"
  shows "inv graph s {} (fst (dijkstra_shortest_path graph s)) (snd (dijkstra_shortest_path graph s)) []"
proof -
  let ?st = "dijkstra_loop graph (init_state graph s)"
  have "inv_state graph s {} ?st" and q: "pq ?st = []"
    using inv_loop [OF assms inv_init, of s] by simp_all
  then have "inv graph s {} (distances ?st) (predecessors ?st) []"
    by (simp add: inv_state_def)
  then show ?thesis by (simp add: dijkstra_shortest_path_eq)
qed

subsection \<open>What the invariant gives once the queue is empty\<close>

lemma final_lower:
  assumes adm: "admissible graph" and inv: "inv graph s {} d pr []"
  shows "rwalk graph s xs c \<Longrightarrow> \<exists>v. d (hd xs) = Some v \<and> v \<noteq> INT_MAX \<and> sint v \<le> c"
proof (induction rule: rwalk.induct)
  case rwalk_start
  have "inv_dist graph s d" using inv by (simp add: inv_def)
  then have "d s = Some 0" by (rule inv_distD(1))
  then show ?case using INT_MAX_neq_0 by simp
next
  case (rwalk_edge u xs c m w)
  have dist: "inv_dist graph s d" and path: "inv_path graph s d"
    and relaxed: "inv_relaxed graph s {} d []"
    using inv by (simp_all add: inv_def)
  obtain du where du: "d u = Some du" "du \<noteq> INT_MAX" "sint du \<le> c"
    using rwalk_edge.IH by auto
  note cand = candidate [OF adm dist path du(1,2) rwalk_edge.hyps(2)]
  have "u \<in> tracked graph s" using edge_key [OF rwalk_edge.hyps(2)] by (simp add: tracked_def)
  then obtain dm where dm: "d m = Some dm" "sint dm \<le> sint du + sint w"
    using inv_relaxedD [OF relaxed _ du(1,2) _ rwalk_edge.hyps(2)] by auto
  then have "sint dm < sint INT_MAX" using cand(3) by simp
  then have "dm \<noteq> INT_MAX" by auto
  then show ?case using dm du(3) by simp
qed

lemma final_exact:
  assumes inv: "inv graph s {} d pr []"
    and n: "n \<in> tracked graph s" "d n = Some v" "v \<noteq> INT_MAX"
  shows "\<exists>p. path_from_to graph s n p \<and> path_weight graph p = sint v"
proof -
  have "inv_path graph s d" using inv by (simp add: inv_def)
  then obtain xs where "gpath graph s d (n # xs) (sint v)"
    using inv_pathD n by blast
  then have "rwalk graph s (n # xs) (sint v)" by (rule gpath_rwalk)
  from rwalk_path [OF this]
  have "path_from_to graph s n (rev (n # xs)) \<and> path_weight graph (rev (n # xs)) = sint v"
    unfolding path_from_to_def by simp
  then show ?thesis by blast
qed

lemma final_pred_exact:
  assumes adm: "admissible graph" and inv: "inv graph s {} d pr []" and p: "pr n = Some u"
  shows "\<exists>w du dn. edge graph u n = Some w \<and> d u = Some du \<and> du \<noteq> INT_MAX \<and> d n = Some dn
           \<and> dn \<noteq> INT_MAX \<and> dn = du + w \<and> sint dn = sint du + sint w"
proof -
  have dist: "inv_dist graph s d" and path: "inv_path graph s d"
    and relaxed: "inv_relaxed graph s {} d []" and pred: "inv_pred graph s d pr"
    using inv by (simp_all add: inv_def)
  obtain w du dn where *: "edge graph u n = Some w" "d u = Some du" "du \<noteq> INT_MAX"
      "d n = Some dn" "dn \<noteq> INT_MAX" "sint du + sint w \<le> sint dn"
    using inv_predD [OF pred p] by blast
  note cand = candidate [OF adm dist path *(2,3,1)]
  have "u \<in> tracked graph s" using edge_key [OF *(1)] by (simp add: tracked_def)
  then have "sint dn \<le> sint du + sint w"
    using inv_relaxedD [OF relaxed _ *(2,3) _ *(1)] *(4) by auto
  then have eq: "sint dn = sint du + sint w" using *(6) by simp
  then have "sint dn = sint (du + w)" using cand(4) by simp
  then have "dn = du + w" by (rule sint_eqI)
  then show ?thesis using * eq by blast
qed

subsection \<open>The backward walk over an acyclic predecessor map\<close>

lemma back_list_hd: "back_list preds s n xs \<Longrightarrow> \<exists>ys. xs = n # ys"
  by (induction rule: back_list.induct) auto

lemma walk_back_list:
  "back_list preds s n xs \<Longrightarrow> walk_back preds s n acc = Some (Inr (rev (acc @ xs)))"
proof (induction arbitrary: acc rule: back_list.induct)
  case back_start
  show ?case by (subst walk_back.simps) simp
next
  case (back_step n u xs)
  have "walk_back preds s n acc = walk_back preds s u (acc @ [n])"
    using back_step.hyps(1,2) by (subst walk_back.simps) (simp add: map_at_def)
  then show ?case using back_step.IH [of "acc @ [n]"] by simp
qed

lemma walk_back_chain:
  "chain preds n \<Longrightarrow> \<exists>p. walk_back preds s n acc = Some (Inr p)"
proof (induction arbitrary: acc rule: chain.induct)
  case (chain_root n)
  then show ?case by (subst walk_back.simps) simp
next
  case (chain_link n u)
  show ?case
  proof (cases "n = s")
    case True then show ?thesis by (subst walk_back.simps) simp
  next
    case False
    have "walk_back preds s n acc = walk_back preds s u (acc @ [n])"
      using False chain_link.hyps(1) by (subst walk_back.simps) (simp add: map_at_def)
    then show ?thesis using chain_link.IH [of "acc @ [n]"] by simp
  qed
qed

lemma final_back_list:
  assumes adm: "admissible graph" and inv: "inv graph s {} d pr []"
  shows "chain pr n \<Longrightarrow> n \<in> tracked graph s \<Longrightarrow> d n = Some v \<Longrightarrow> v \<noteq> INT_MAX
    \<Longrightarrow> \<exists>xs. back_list pr s n xs \<and> rwalk graph s xs (sint v)"
proof (induction arbitrary: v rule: chain.induct)
  case (chain_root n)
  have dist: "inv_dist graph s d" and pred: "inv_pred graph s d pr"
    using inv by (simp_all add: inv_def)
  have "n = s" using inv_pred_has [OF pred chain_root.prems(1) _ chain_root.prems(2,3)] chain_root.hyps
    by blast
  moreover have "d s = Some 0" using dist by (rule inv_distD(1))
  ultimately have "n = s \<and> v = 0" using chain_root.prems(2) by simp
  moreover have "back_list pr s s [s] \<and> rwalk graph s [s] (sint (0 :: int32))"
    using back_list.back_start [of pr s] rwalk.rwalk_start [of graph s] by simp
  ultimately show ?case by blast
next
  case (chain_link n u)
  have pred: "inv_pred graph s d pr" using inv by (simp add: inv_def)
  have n_s: "n \<noteq> s" using inv_pred_start [OF pred] chain_link.hyps(1) by auto
  obtain w du dn where *: "edge graph u n = Some w" "d u = Some du" "du \<noteq> INT_MAX"
      "d n = Some dn" "sint dn = sint du + sint w"
    using final_pred_exact [OF adm inv chain_link.hyps(1)] by blast
  have "u \<in> tracked graph s" using edge_key [OF *(1)] by (simp add: tracked_def)
  then obtain xs where xs: "back_list pr s u xs" "rwalk graph s xs (sint du)"
    using chain_link.IH [OF _ *(2,3)] by blast
  obtain ys where ys: "xs = u # ys" using back_list_hd [OF xs(1)] by blast
  have "rwalk graph s (n # u # ys) (sint du + sint w)"
    using xs(2) *(1) unfolding ys by (rule rwalk.rwalk_edge)
  moreover have "back_list pr s n (n # xs)"
    using n_s chain_link.hyps(1) xs(1) by (rule back_list.back_step)
  moreover have "sint v = sint du + sint w" using chain_link.prems(2) * by simp
  ultimately show ?case using ys by auto
qed

lemma final_reached:
  assumes adm: "admissible graph" and inv: "inv graph s {} d pr []"
    and p: "path_from_to graph s n p"
  shows "\<exists>v. d n = Some v \<and> v \<noteq> INT_MAX \<and> sint v \<le> path_weight graph p"
proof -
  have "rwalk graph s (rev p) (path_weight graph p)"
    using path_rwalk [of graph p] p by (simp add: path_from_to_def)
  moreover have "hd (rev p) = n"
    using p is_path_nonempty [of graph p] by (simp add: path_from_to_def hd_rev)
  ultimately show ?thesis using final_lower [OF adm inv] by metis
qed

section \<open>Properties of dijkstra_shortest_path\<close>

text \<open>
  Claim C1, as the program has it.  For a graph with non-negative weights whose weights
  sum to less than \<^verbatim>\<open>INT_MAX\<close>, every node that is reachable from the start node and is a
  key of the graph (or the start node itself) has a finite recorded distance, and this
  distance, read as an unbounded integer, is the least weight of a path from the start
  node to it.  Nodes that occur only as neighbours are left out of the statement.
\<close>

theorem shortest_distances:
  assumes "wf_graph graph" "nonneg_weights graph" "total_weight graph < sint INT_MAX"
    and "n \<in> fst ` set graph \<or> n = start_node"
    and "reachable graph start_node n"
  shows "\<exists>v. fst (dijkstra_shortest_path graph start_node) n = Some v \<and> v \<noteq> INT_MAX \<and>
           is_shortest_distance graph start_node n (sint v)"
proof -
  let ?d = "fst (dijkstra_shortest_path graph start_node)"
  let ?pr = "snd (dijkstra_shortest_path graph start_node)"
  have adm: "admissible graph" using assms(1-3) by (simp add: admissible_def)
  have inv: "inv graph start_node {} ?d ?pr []" by (rule inv_final [OF adm])
  have tr: "n \<in> tracked graph start_node" using assms(4) by (auto simp: tracked_def)
  note lower = final_reached [OF adm inv]
  obtain p0 where "path_from_to graph start_node n p0"
    using assms(5) by (auto simp: reachable_def)
  then obtain v where v: "?d n = Some v" "v \<noteq> INT_MAX" using lower by blast
  have "\<exists>p. path_from_to graph start_node n p \<and> path_weight graph p = sint v"
    by (rule final_exact [OF inv tr v])
  moreover have "\<forall>p. path_from_to graph start_node n p \<longrightarrow> sint v \<le> path_weight graph p"
    using lower v(1) by fastforce
  ultimately show ?thesis using v by (simp add: is_shortest_distance_def)
qed

text \<open>
  Claim C2, as the program has it.  For a graph with non-negative weights whose weights
  sum to less than \<^verbatim>\<open>INT_MAX\<close>, the distance map holds 0 for the start node, whether
  the start node is a key of the graph or not.
\<close>

theorem start_distance_zero:
  assumes "wf_graph graph" "nonneg_weights graph" "total_weight graph < sint INT_MAX"
  shows "fst (dijkstra_shortest_path graph start_node) start_node = Some 0"
proof -
  have "admissible graph" using assms by (simp add: admissible_def)
  then have "inv_dist graph start_node (fst (dijkstra_shortest_path graph start_node))"
    using inv_final [of graph start_node] by (simp add: inv_def)
  then show ?thesis by (rule inv_distD(1))
qed

text \<open>
  Claim C7, as the program has it.  For a graph with non-negative weights whose weights
  sum to less than \<^verbatim>\<open>INT_MAX\<close>, the predecessor map has no entry for the start node.
\<close>

theorem start_has_no_predecessor:
  assumes "wf_graph graph" "nonneg_weights graph" "total_weight graph < sint INT_MAX"
  shows "snd (dijkstra_shortest_path graph start_node) start_node = None"
proof -
  have "admissible graph" using assms by (simp add: admissible_def)
  then have "inv_pred graph start_node (fst (dijkstra_shortest_path graph start_node))
      (snd (dijkstra_shortest_path graph start_node))"
    using inv_final [of graph start_node] by (simp add: inv_def)
  then show ?thesis by (rule inv_pred_start)
qed

text \<open>
  Claim C4, as the program has it.  For a graph with non-negative weights whose weights
  sum to less than \<^verbatim>\<open>INT_MAX\<close>, and a target that is reachable from the start node and
  is a key of the graph (or the start node itself), \<open>reconstruct_path\<close> on the predecessor
  map of \<open>dijkstra_shortest_path\<close> returns a path of the graph from the start node to the
  target whose weight is the distance recorded for the target.
\<close>

theorem reconstructed_path:
  assumes "wf_graph graph" "nonneg_weights graph" "total_weight graph < sint INT_MAX"
    and "target_node \<in> fst ` set graph \<or> target_node = start_node"
    and "reachable graph start_node target_node"
  shows "\<exists>p v. reconstruct_path (snd (dijkstra_shortest_path graph start_node)) start_node target_node
             = Some (Inr p) \<and>
           hd p = start_node \<and> last p = target_node \<and> is_path graph p \<and>
           fst (dijkstra_shortest_path graph start_node) target_node = Some v \<and>
           path_weight graph p = sint v"
proof -
  let ?d = "fst (dijkstra_shortest_path graph start_node)"
  let ?pr = "snd (dijkstra_shortest_path graph start_node)"
  have adm: "admissible graph" using assms(1-3) by (simp add: admissible_def)
  have inv: "inv graph start_node {} ?d ?pr []" by (rule inv_final [OF adm])
  have tr: "target_node \<in> tracked graph start_node" using assms(4) by (auto simp: tracked_def)
  obtain p0 where "path_from_to graph start_node target_node p0"
    using assms(5) by (auto simp: reachable_def)
  then obtain v where v: "?d target_node = Some v" "v \<noteq> INT_MAX"
    using final_reached [OF adm inv] by blast
  have "inv_pred graph start_node ?d ?pr" using inv by (simp add: inv_def)
  then have "chain ?pr target_node" by (rule inv_pred_chain)
  then obtain xs where xs: "back_list ?pr start_node target_node xs"
      "rwalk graph start_node xs (sint v)"
    using final_back_list [OF adm inv _ tr v] by blast
  have "reconstruct_path ?pr start_node target_node = Some (Inr (rev xs))"
    using walk_back_list [OF xs(1), of "[]"] by (simp add: reconstruct_path_def)
  moreover have "last (rev xs) = target_node"
    using back_list_hd [OF xs(1)] by auto
  ultimately show ?thesis using rwalk_path [OF xs(2)] v(1) by auto
qed

text \<open>
  Claim C8, as the program has it.  For a graph with non-negative weights whose weights
  sum to less than \<^verbatim>\<open>INT_MAX\<close>, no sum of a relaxation wraps: every recorded distance
  of a key of the graph (or of the start node) other than the sentinel lies between 0 and
  the sentinel, is the exact integer weight of a path from the start node, and is the exact
  integer sum of the distance recorded for its predecessor and the weight of the edge
  from the predecessor.
\<close>

theorem recorded_distances_exact:
  assumes "wf_graph graph" "nonneg_weights graph" "total_weight graph < sint INT_MAX"
    and "n \<in> fst ` set graph \<or> n = start_node"
    and "fst (dijkstra_shortest_path graph start_node) n = Some v" "v \<noteq> INT_MAX"
  shows "0 \<le> sint v \<and> sint v < sint INT_MAX \<and>
         (\<exists>p. path_from_to graph start_node n p \<and> path_weight graph p = sint v) \<and>
         (\<forall>u. snd (dijkstra_shortest_path graph start_node) n = Some u \<longrightarrow>
            (\<exists>du w. fst (dijkstra_shortest_path graph start_node) u = Some du \<and>
               edge graph u n = Some w \<and> v = du + w \<and> sint v = sint du + sint w))"
proof -
  let ?d = "fst (dijkstra_shortest_path graph start_node)"
  let ?pr = "snd (dijkstra_shortest_path graph start_node)"
  have adm: "admissible graph" using assms(1-3) by (simp add: admissible_def)
  have inv: "inv graph start_node {} ?d ?pr []" by (rule inv_final [OF adm])
  have tr: "n \<in> tracked graph start_node" using assms(4) by (auto simp: tracked_def)
  have "inv_dist graph start_node ?d" using inv by (simp add: inv_def)
  then have "0 \<le> sint v" using assms(5) by (rule inv_distD(2))
  moreover have "sint v < sint INT_MAX"
  proof -
    have "sint v \<le> sint INT_MAX" using sint_lt [of v] by (simp add: sint_INT_MAX)
    moreover have "sint v \<noteq> sint INT_MAX" using assms(6) sint_eqI by blast
    ultimately show ?thesis by simp
  qed
  moreover have "\<exists>p. path_from_to graph start_node n p \<and> path_weight graph p = sint v"
    by (rule final_exact [OF inv tr assms(5,6)])
  moreover have "\<exists>du w. ?d u = Some du \<and> edge graph u n = Some w \<and> v = du + w
        \<and> sint v = sint du + sint w" if "?pr n = Some u" for u
    using final_pred_exact [OF adm inv that] assms(5) by auto
  ultimately show ?thesis by blast
qed

text \<open>
  Claim C10, as the program has it.  For a graph with non-negative weights whose weights
  sum to less than \<^verbatim>\<open>INT_MAX\<close>, the backward walk over the predecessor map of
  \<open>dijkstra_shortest_path\<close> ends for every start node and every target handed to
  \<open>reconstruct_path\<close>, and it ends without the exception of \<^verbatim>\<open>at\<close>.
\<close>

theorem reconstruct_path_terminates:
  assumes "wf_graph graph" "nonneg_weights graph" "total_weight graph < sint INT_MAX"
  shows "\<exists>p. reconstruct_path (snd (dijkstra_shortest_path graph start_node)) s t = Some (Inr p)"
proof -
  have "admissible graph" using assms by (simp add: admissible_def)
  then have "inv_pred graph start_node (fst (dijkstra_shortest_path graph start_node))
      (snd (dijkstra_shortest_path graph start_node))"
    using inv_final [of graph start_node] by (simp add: inv_def)
  then have "chain (snd (dijkstra_shortest_path graph start_node)) t" by (rule inv_pred_chain)
  then show ?thesis unfolding reconstruct_path_def by (rule walk_back_chain)
qed

section \<open>Concrete runs\<close>

subsection \<open>The sample graph meets the assumptions\<close>

lemma sample_admissible:
  "wf_graph sample_graph" "nonneg_weights sample_graph" "total_weight sample_graph < sint INT_MAX"
  by code_simp+

lemma sample_reachable_D: "reachable sample_graph ''A'' ''D''"
  unfolding reachable_def path_from_to_def
  by (rule exI [of _ "[''A'', ''C'', ''D'']"]) code_simp

lemma sample_distance_D: "fst (dijkstra_shortest_path sample_graph ''A'') ''D'' = Some 20"
  by code_simp

lemma sample_key_D: "''D'' \<in> fst ` set sample_graph \<or> ''D'' = ''A''"
  by code_simp

theorem shortest_distances_witness:
  "wf_graph sample_graph \<and> nonneg_weights sample_graph \<and>
   total_weight sample_graph < sint INT_MAX \<and>
   reachable sample_graph ''A'' ''D'' \<and>
   fst (dijkstra_shortest_path sample_graph ''A'') ''D'' = Some 20 \<and>
   is_shortest_distance sample_graph ''A'' ''D'' 20"
  using shortest_distances [OF sample_admissible sample_key_D sample_reachable_D]
    sample_admissible sample_reachable_D sample_distance_D
  by simp

subsection \<open>A predecessor map with a cycle\<close>

lemma walk_back_cycle:
  assumes cyc: "preds a = Some b" "preds b = Some a" "a \<noteq> z" "b \<noteq> z"
  shows "walk_back preds z a acc = None"
proof (cases "walk_back preds z a acc")
  case None then show ?thesis .
next
  case (Some r)
  have "p = preds \<and> s = z \<and> (c = a \<or> c = b) \<longrightarrow> False"
    if run: "walk_back p s c path = Some y" for p s c path y
  proof (rule walk_back.raw_induct
      [where P = "\<lambda>p s c path y. p = preds \<and> s = z \<and> (c = a \<or> c = b) \<longrightarrow> False", OF _ run])
    fix f p' s' c' path' y'
    assume IH: "\<And>p s c path y. f p s c path = Some y \<Longrightarrow>
        p = preds \<and> s = z \<and> (c = a \<or> c = b) \<longrightarrow> False"
      and body: "(if c' \<noteq> s'
          then if p' c' = None then Some (Inr [])
               else case map_at p' c' of Inl e \<Rightarrow> Some (Inl e)
                    | Inr previous \<Rightarrow> f p' s' previous (path' @ [c'])
          else Some (Inr (rev (path' @ [s'])))) = Some y'"
    show "p' = preds \<and> s' = z \<and> (c' = a \<or> c' = b) \<longrightarrow> False"
    proof
      assume h: "p' = preds \<and> s' = z \<and> (c' = a \<or> c' = b)"
      then have "f preds z (if c' = a then b else a) (path' @ [c']) = Some y'"
        using body cyc by (auto simp: map_at_def split: if_splits)
      then show False using IH by (metis (full_types))
    qed
  qed
  then show ?thesis using Some by blast
qed

subsection \<open>A node that occurs only as a neighbour\<close>

text \<open>
  With the graph A: {B: 5} and start node A, the node B is not a key of the graph.  The
  comparison \<^verbatim>\<open>new_distance < distances[neighbor]\<close> inserts B with the distance 0, the
  candidate 5 is not below it, and B keeps the distance 0 and gets no predecessor.  This is
  why the theorems for claims C1, C4 and C8 speak of the keys of the graph and the start
  node only.
\<close>

lemma neighbor_only_edge:
  "edge neighbor_only_graph u v = (if u = ''A'' \<and> v = ''B'' then Some 5 else None)"
  by (simp add: edge_def neighbor_only_graph_def)

lemma neighbor_only_paths:
  assumes "path_from_to neighbor_only_graph ''A'' ''B'' p"
  shows "p = [''A'', ''B'']"
proof -
  have p: "is_path neighbor_only_graph p" "hd p = ''A''" "last p = ''B''"
    using assms by (simp_all add: path_from_to_def)
  show ?thesis
  proof (cases p)
    case Nil then show ?thesis using p(1) by simp
  next
    case (Cons x q)
    show ?thesis
    proof (cases q)
      case Nil then show ?thesis using p(2,3) Cons by simp
    next
      case (Cons y r)
      have "x = ''A''" using p(2) \<open>p = x # q\<close> by simp
      moreover have "y = ''B''"
        using p(1) \<open>p = x # q\<close> Cons by (simp add: neighbor_only_edge split: if_splits)
      moreover have "r = []"
      proof (cases r)
        case Nil then show ?thesis .
      next
        case (Cons z r')
        then have "edge neighbor_only_graph y z \<noteq> None"
          using p(1) \<open>p = x # q\<close> \<open>q = y # r\<close> by simp
        then show ?thesis using \<open>y = ''B''\<close> by (simp add: neighbor_only_edge)
      qed
      ultimately show ?thesis using \<open>p = x # q\<close> Cons by simp
    qed
  qed
qed

text \<open>B is reachable, its only path weighs 5, and the recorded distance is 0.\<close>

lemma neighbor_only_distance:
  "nonneg_weights neighbor_only_graph \<and>
   reachable neighbor_only_graph ''A'' ''B'' \<and>
   fst (dijkstra_shortest_path neighbor_only_graph ''A'') ''B'' = Some 0 \<and>
   \<not> is_shortest_distance neighbor_only_graph ''A'' ''B'' (sint (0 :: int32))"
proof -
  have "nonneg_weights neighbor_only_graph" by code_simp
  moreover have "path_from_to neighbor_only_graph ''A'' ''B'' [''A'', ''B'']" by code_simp
  then have "reachable neighbor_only_graph ''A'' ''B''" unfolding reachable_def by (rule exI)
  moreover have "fst (dijkstra_shortest_path neighbor_only_graph ''A'') ''B'' = Some 0"
    by code_simp
  moreover have "\<not> is_shortest_distance neighbor_only_graph ''A'' ''B'' (sint (0 :: int32))"
  proof
    assume "is_shortest_distance neighbor_only_graph ''A'' ''B'' (sint (0 :: int32))"
    then obtain p where p: "path_from_to neighbor_only_graph ''A'' ''B'' p"
      "path_weight neighbor_only_graph p = 0"
      by (auto simp: is_shortest_distance_def)
    have "path_weight neighbor_only_graph [''A'', ''B''] = 5" by code_simp
    then show False using p(2) neighbor_only_paths [OF p(1)] by simp
  qed
  ultimately show ?thesis by blast
qed

text \<open>The path reconstructed for B is empty.\<close>

lemma neighbor_only_path:
  "nonneg_weights neighbor_only_graph \<and>
   reachable neighbor_only_graph ''A'' ''B'' \<and>
   reconstruct_path (snd (dijkstra_shortest_path neighbor_only_graph ''A'')) ''A'' ''B''
     = Some (Inr [])"
proof -
  have "nonneg_weights neighbor_only_graph" by code_simp
  moreover have "path_from_to neighbor_only_graph ''A'' ''B'' [''A'', ''B'']" by code_simp
  then have "reachable neighbor_only_graph ''A'' ''B''" unfolding reachable_def by (rule exI)
  moreover have "reconstruct_path (snd (dijkstra_shortest_path neighbor_only_graph ''A'')) ''A'' ''B''
     = Some (Inr [])"
    by code_simp
  ultimately show ?thesis by blast
qed

subsection \<open>Sums that wrap\<close>

text \<open>
  With the graph A: {B: 2147483646}, B: {A: 2} and start node A, the candidate for A
  computed from B wraps to the least \<^verbatim>\<open>int\<close>, which is below 0.  Claim C2 as stated
  fails: the start node ends with that distance.
\<close>

theorem wrapping_start_distance_counterexample:
  "wf_graph wrapping_graph \<and> nonneg_weights wrapping_graph \<and>
   fst (dijkstra_shortest_path wrapping_graph ''A'') ''A'' = Some (- 2147483648)"
  by code_simp

text \<open>Claim C7 as stated fails on the same run: the start node A gets the predecessor B.\<close>

theorem wrapping_start_predecessor_counterexample:
  "wf_graph wrapping_graph \<and> nonneg_weights wrapping_graph \<and>
   snd (dijkstra_shortest_path wrapping_graph ''A'') ''A'' = Some ''B''"
  by code_simp

lemma path_weight_nonneg: "nonneg_weights graph \<Longrightarrow> 0 \<le> path_weight graph p"
proof (induction graph p rule: path_weight.induct)
  case (1 graph u v rest)
  show ?case
  proof (cases "edge graph u v")
    case None then show ?thesis using 1 by simp
  next
    case (Some w)
    then have "0 \<le> sint w" using "1.prems" edge_nonneg by blast
    then show ?thesis using 1 Some by simp
  qed
qed simp_all

text \<open>
  Claim C1 as stated fails: with the graph A: {B: 2147483646}, B: {C: 2}, C: {} and start
  node A, the node C is reachable, every path to it has a weight of at least 0, and the
  distance recorded for it is the least \<^verbatim>\<open>int\<close>.
\<close>

theorem wrapping_distance_counterexample:
  "wf_graph wrapping_chain_graph \<and> nonneg_weights wrapping_chain_graph \<and>
   reachable wrapping_chain_graph ''A'' ''C'' \<and>
   fst (dijkstra_shortest_path wrapping_chain_graph ''A'') ''C'' = Some (- 2147483648) \<and>
   \<not> is_shortest_distance wrapping_chain_graph ''A'' ''C'' (sint (- 2147483648 :: int32))"
proof -
  have g: "wf_graph wrapping_chain_graph \<and> nonneg_weights wrapping_chain_graph" by code_simp
  have "path_from_to wrapping_chain_graph ''A'' ''C'' [''A'', ''B'', ''C'']" by code_simp
  then have r: "reachable wrapping_chain_graph ''A'' ''C''" unfolding reachable_def by (rule exI)
  have d: "fst (dijkstra_shortest_path wrapping_chain_graph ''A'') ''C'' = Some (- 2147483648)"
    by code_simp
  have "\<not> is_shortest_distance wrapping_chain_graph ''A'' ''C'' (sint (- 2147483648 :: int32))"
  proof
    assume "is_shortest_distance wrapping_chain_graph ''A'' ''C'' (sint (- 2147483648 :: int32))"
    then obtain p where "path_weight wrapping_chain_graph p = sint (- 2147483648 :: int32)"
      by (auto simp: is_shortest_distance_def)
    moreover have "0 \<le> path_weight wrapping_chain_graph p"
      using g by (simp add: path_weight_nonneg)
    ultimately show False by simp
  qed
  then show ?thesis using g r d by blast
qed

text \<open>
  Claim C4 as stated fails on the same run: the path reconstructed for C is A, B, C, of
  weight 2147483648, and the distance recorded for C is the least \<^verbatim>\<open>int\<close>.
\<close>

theorem wrapping_path_counterexample:
  "wf_graph wrapping_chain_graph \<and> nonneg_weights wrapping_chain_graph \<and>
   reachable wrapping_chain_graph ''A'' ''C'' \<and>
   reconstruct_path (snd (dijkstra_shortest_path wrapping_chain_graph ''A'')) ''A'' ''C''
     = Some (Inr [''A'', ''B'', ''C'']) \<and>
   path_weight wrapping_chain_graph [''A'', ''B'', ''C''] = 2147483648 \<and>
   fst (dijkstra_shortest_path wrapping_chain_graph ''A'') ''C'' = Some (- 2147483648) \<and>
   sint (- 2147483648 :: int32) = - 2147483648"
proof -
  have "path_from_to wrapping_chain_graph ''A'' ''C'' [''A'', ''B'', ''C'']" by code_simp
  then have "reachable wrapping_chain_graph ''A'' ''C''" unfolding reachable_def by (rule exI)
  moreover have "wf_graph wrapping_chain_graph \<and> nonneg_weights wrapping_chain_graph \<and>
     reconstruct_path (snd (dijkstra_shortest_path wrapping_chain_graph ''A'')) ''A'' ''C''
       = Some (Inr [''A'', ''B'', ''C'']) \<and>
     path_weight wrapping_chain_graph [''A'', ''B'', ''C''] = 2147483648 \<and>
     fst (dijkstra_shortest_path wrapping_chain_graph ''A'') ''C'' = Some (- 2147483648) \<and>
     sint (- 2147483648 :: int32) = - 2147483648"
    by code_simp
  ultimately show ?thesis by blast
qed

text \<open>
  Claim C8 as stated fails: with the graph A: {B: 2147483646}, B: {C: 2}, C: {} the
  distance recorded for C is the least \<^verbatim>\<open>int\<close>, while the path A, B, C that
  \<open>reconstruct_path\<close> returns for it weighs 2147483648.
\<close>

theorem wrapping_sum_counterexample:
  "wf_graph wrapping_chain_graph \<and> nonneg_weights wrapping_chain_graph \<and>
   fst (dijkstra_shortest_path wrapping_chain_graph ''A'') ''C'' = Some (- 2147483648) \<and>
   (- 2147483648 :: int32) \<noteq> INT_MAX \<and>
   sint (- 2147483648 :: int32) = - 2147483648 \<and>
   reconstruct_path (snd (dijkstra_shortest_path wrapping_chain_graph ''A'')) ''A'' ''C''
     = Some (Inr [''A'', ''B'', ''C'']) \<and>
   path_weight wrapping_chain_graph [''A'', ''B'', ''C''] = 2147483648"
  by code_simp

text \<open>
  Claim C10 as stated fails: on the wrapping graph the predecessor map sends A to B and B
  to A, and the backward walk from B towards a start node Z never ends.
\<close>

theorem wrapping_walk_counterexample:
  "wf_graph wrapping_graph \<and> nonneg_weights wrapping_graph \<and>
   reconstruct_path (snd (dijkstra_shortest_path wrapping_graph ''A'')) ''Z'' ''B'' = None"
proof -
  have "snd (dijkstra_shortest_path wrapping_graph ''A'') ''B'' = Some ''A''"
    "snd (dijkstra_shortest_path wrapping_graph ''A'') ''A'' = Some ''B''"
    by code_simp+
  then have "walk_back (snd (dijkstra_shortest_path wrapping_graph ''A'')) ''Z'' ''B'' [] = None"
    by (rule walk_back_cycle) simp_all
  moreover have "wf_graph wrapping_graph \<and> nonneg_weights wrapping_graph" by code_simp
  ultimately show ?thesis by (simp add: reconstruct_path_def)
qed

subsection \<open>The theorems on the sample graph\<close>

theorem start_distance_zero_witness:
  "wf_graph sample_graph \<and> nonneg_weights sample_graph \<and>
   total_weight sample_graph < sint INT_MAX \<and>
   fst (dijkstra_shortest_path sample_graph ''Z'') ''Z'' = Some 0"
  using start_distance_zero [OF sample_admissible, of "''Z''"] sample_admissible by simp

theorem start_has_no_predecessor_witness:
  "wf_graph sample_graph \<and> nonneg_weights sample_graph \<and>
   total_weight sample_graph < sint INT_MAX \<and>
   snd (dijkstra_shortest_path sample_graph ''A'') ''A'' = None"
  using start_has_no_predecessor [OF sample_admissible, of "''A''"] sample_admissible by simp

theorem reconstructed_path_witness:
  "wf_graph sample_graph \<and> nonneg_weights sample_graph \<and>
   total_weight sample_graph < sint INT_MAX \<and>
   reachable sample_graph ''A'' ''D'' \<and>
   (\<exists>p v. reconstruct_path (snd (dijkstra_shortest_path sample_graph ''A'')) ''A'' ''D''
             = Some (Inr p) \<and>
          hd p = ''A'' \<and> last p = ''D'' \<and> is_path sample_graph p \<and>
          fst (dijkstra_shortest_path sample_graph ''A'') ''D'' = Some v \<and>
          path_weight sample_graph p = sint v)"
  using reconstructed_path [OF sample_admissible sample_key_D sample_reachable_D]
    sample_admissible sample_reachable_D
  by simp

lemma sample_predecessor_D: "snd (dijkstra_shortest_path sample_graph ''A'') ''D'' = Some ''C''"
  by code_simp

lemma twenty_finite: "(20 :: int32) \<noteq> INT_MAX"
  by code_simp

theorem recorded_distances_exact_witness:
  "wf_graph sample_graph \<and> nonneg_weights sample_graph \<and>
   total_weight sample_graph < sint INT_MAX \<and>
   fst (dijkstra_shortest_path sample_graph ''A'') ''D'' = Some 20 \<and>
   snd (dijkstra_shortest_path sample_graph ''A'') ''D'' = Some ''C'' \<and>
   (\<exists>p. path_from_to sample_graph ''A'' ''D'' p \<and> path_weight sample_graph p = 20) \<and>
   (\<exists>du w. fst (dijkstra_shortest_path sample_graph ''A'') ''C'' = Some du \<and>
      edge sample_graph ''C'' ''D'' = Some w \<and> 20 = du + w \<and> 20 = sint du + sint w)"
  using recorded_distances_exact [OF sample_admissible sample_key_D sample_distance_D twenty_finite]
    sample_admissible sample_distance_D sample_predecessor_D
  by simp

theorem reconstruct_path_terminates_witness:
  "wf_graph sample_graph \<and> nonneg_weights sample_graph \<and>
   total_weight sample_graph < sint INT_MAX \<and>
   (\<exists>p. reconstruct_path (snd (dijkstra_shortest_path sample_graph ''A'')) ''Z'' ''D''
          = Some (Inr p))"
  using reconstruct_path_terminates [OF sample_admissible, of "''A''" "''Z''" "''D''"]
    sample_admissible
  by simp

end
